theory Spec2Isabelle
  imports Complex_Main "HOL-Library.Sublist"
begin

section \<open>Python values used by the services\<close>

subsection \<open>Strings\<close>

text \<open>
  A Python \<open>str\<close> is modelled as a \<open>string\<close> whose characters are code points below 256
  (Latin-1). On these \<open>str.lower()\<close> maps \<open>A\<close>..\<open>Z\<close> and the accented capitals
  \<open>0xC0\<close>..\<open>0xDE\<close> (without the multiplication sign \<open>0xD7\<close>) to the character 32 places
  further on and leaves every other character as it is; the length never changes.
\<close>

definition lower_char :: "char \<Rightarrow> char" where
  "lower_char c =
     (let n = (of_char c :: nat)
      in if 65 \<le> n \<and> n \<le> 90 then char_of (n + 32)
         else if 192 \<le> n \<and> n \<le> 222 \<and> n \<noteq> 215 then char_of (n + 32)
         else c)"

definition str_lower :: "string \<Rightarrow> string" where
  "str_lower s = map lower_char s"

text \<open>\<open>k in t\<close>: the string \<open>k\<close> occurs in \<open>t\<close> as a contiguous piece.\<close>

fun str_contains :: "string \<Rightarrow> string \<Rightarrow> bool" where
  "str_contains [] k = (k = [])"
| "str_contains (c # cs) k = (prefix k (c # cs) \<or> str_contains cs k)"

text \<open>\<open>t.count(c)\<close> for a single character \<open>c\<close>.\<close>

definition str_count :: "string \<Rightarrow> char \<Rightarrow> nat" where
  "str_count t c = length (filter (\<lambda>x. x = c) t)"

subsection \<open>Regular expressions\<close>

text \<open>
  The patterns of the analyser use literals, the dot (any character but a newline),
  \<open>\d\<close>, alternation, the star, \<open>+\<close> and \<open>?\<close>. \<open>re.search\<close> asks whether some piece of
  the text belongs to the language of the pattern; the matcher below decides it with
  derivatives.
\<close>

datatype regex =
    Eps
  | Lit char
  | Dot
  | Digit
  | Seq regex regex
  | Alt regex regex
  | Star regex

definition Plus :: "regex \<Rightarrow> regex" where
  "Plus r = Seq r (Star r)"

definition Opt :: "regex \<Rightarrow> regex" where
  "Opt r = Alt r Eps"

fun Str :: "string \<Rightarrow> regex" where
  "Str [] = Eps"
| "Str (c # cs) = Seq (Lit c) (Str cs)"

fun Alts :: "regex \<Rightarrow> regex list \<Rightarrow> regex" where
  "Alts r [] = r"
| "Alts r (q # qs) = Alt r (Alts q qs)"

definition is_digit :: "char \<Rightarrow> bool" where
  "is_digit c = (let n = (of_char c :: nat) in 48 \<le> n \<and> n \<le> 57)"

fun nullable :: "regex \<Rightarrow> bool" where
  "nullable Eps = True"
| "nullable (Lit c) = False"
| "nullable Dot = False"
| "nullable Digit = False"
| "nullable (Seq r q) = (nullable r \<and> nullable q)"
| "nullable (Alt r q) = (nullable r \<or> nullable q)"
| "nullable (Star r) = True"

text \<open>\<open>deriv c r = None\<close> when nothing in the language of \<open>r\<close> starts with \<open>c\<close>.\<close>

fun deriv :: "char \<Rightarrow> regex \<Rightarrow> regex option" where
  "deriv c Eps = None"
| "deriv c (Lit d) = (if c = d then Some Eps else None)"
| "deriv c Dot = (if c = CHR 0x0A then None else Some Eps)"
| "deriv c Digit = (if is_digit c then Some Eps else None)"
| "deriv c (Seq r q) =
     (case deriv c r of
        None \<Rightarrow> (if nullable r then deriv c q else None)
      | Some r' \<Rightarrow>
          (if nullable r
           then (case deriv c q of None \<Rightarrow> Some (Seq r' q) | Some q' \<Rightarrow> Some (Alt (Seq r' q) q'))
           else Some (Seq r' q)))"
| "deriv c (Alt r q) =
     (case deriv c r of
        None \<Rightarrow> deriv c q
      | Some r' \<Rightarrow> (case deriv c q of None \<Rightarrow> Some r' | Some q' \<Rightarrow> Some (Alt r' q')))"
| "deriv c (Star r) = (case deriv c r of None \<Rightarrow> None | Some r' \<Rightarrow> Some (Seq r' (Star r)))"

text \<open>Some prefix of the text is in the language of the pattern (\<open>re.match\<close>).\<close>

fun re_match :: "regex \<Rightarrow> string \<Rightarrow> bool" where
  "re_match r [] = nullable r"
| "re_match r (c # cs) =
     (nullable r \<or> (case deriv c r of None \<Rightarrow> False | Some r' \<Rightarrow> re_match r' cs))"

text \<open>Some piece of the text is in the language of the pattern (\<open>re.search\<close>).\<close>

fun re_search :: "regex \<Rightarrow> string \<Rightarrow> bool" where
  "re_search r [] = nullable r"
| "re_search r (c # cs) = (re_match r (c # cs) \<or> re_search r cs)"

text \<open>
  The meaning of a pattern: the strings that belong to its language. The lemmas
  \<open>re_match_iff\<close> and \<open>re_search_iff\<close> below show that the matcher decides it.
\<close>

inductive matches :: "regex \<Rightarrow> string \<Rightarrow> bool" where
  m_Eps: "matches Eps []"
| m_Lit: "matches (Lit c) [c]"
| m_Dot: "c \<noteq> CHR 0x0A \<Longrightarrow> matches Dot [c]"
| m_Digit: "is_digit c \<Longrightarrow> matches Digit [c]"
| m_Seq: "matches r u \<Longrightarrow> matches q v \<Longrightarrow> matches (Seq r q) (u @ v)"
| m_AltL: "matches r u \<Longrightarrow> matches (Alt r q) u"
| m_AltR: "matches q u \<Longrightarrow> matches (Alt r q) u"
| m_StarNil: "matches (Star r) []"
| m_StarStep: "matches r u \<Longrightarrow> matches (Star r) v \<Longrightarrow> matches (Star r) (u @ v)"

section \<open>The heuristic analyser (\<open>services/nlp_service.py\<close>)\<close>

subsection \<open>Urgency score\<close>

text \<open>
  The score is a Python \<open>float\<close>. Every value the function computes is a multiple of
  one half of small size, which a double holds exactly, so the arithmetic is that of the
  reals.
\<close>

definition urgency_keywords :: "(string \<times> string list) list" where
  "urgency_keywords =
     [(''high'', [''urgent'', ''asap'', ''immediately'', ''emergency'', ''critical'',
                  ''deadline'', ''today'']),
      (''medium'', [''soon'', ''this week'', ''important'', ''please'', ''need'', ''required'']),
      (''low'', [''when you can'', ''no rush'', ''fyi'', ''for your information''])]"

definition time_patterns :: "regex list" where
  "time_patterns =
     [Seq (Str ''by '') (Alts (Str ''today'') [Str ''tomorrow'', Str ''end of day'', Str ''eod'']),
      Seq (Str ''deadline'') (Seq (Star Dot)
        (Alts (Str ''today'') [Str ''tomorrow'', Str ''this week''])),
      Seq (Str ''need'') (Seq (Star Dot)
        (Alts (Str ''asap'') [Str ''immediately'', Str ''urgently''])),
      Seq (Str ''meeting'') (Seq (Star Dot)
        (Alts (Str ''today'') [Str ''tomorrow'',
           Seq (Str ''in '') (Seq (Plus Digit) (Seq (Str '' hour'') (Opt (Lit CHR ''s''))))]))]"

text \<open>The body of the inner loop, for one keyword of one level.\<close>

definition keyword_step :: "string \<Rightarrow> string \<Rightarrow> string \<Rightarrow> real \<Rightarrow> real" where
  "keyword_step text_lower level keyword score =
     (if str_contains text_lower keyword
      then (if level = ''high'' then score + 2.0
            else if level = ''medium'' then score + 1.0
            else if level = ''low'' then score - 1.0
            else score)
      else score)"

definition pattern_step :: "string \<Rightarrow> regex \<Rightarrow> real \<Rightarrow> real" where
  "pattern_step text_lower pattern score =
     (if re_search pattern text_lower then score + 1.5 else score)"

definition calculate_urgency_score :: "string \<Rightarrow> real" where
  "calculate_urgency_score text =
     (let text_lower = str_lower text;
          score = 5.0;
          score = fold (\<lambda>(level, keywords) sc. fold (keyword_step text_lower level) keywords sc)
                    urgency_keywords score;
          score = fold (pattern_step text_lower) time_patterns score;
          question_count = str_count text (CHR ''?'');
          score = score + min (real question_count * 0.5) 2.0
      in max 1.0 (min 10.0 score))"

definition classify_priority :: "string \<Rightarrow> string" where
  "classify_priority text =
     (let urgency_score = calculate_urgency_score text
      in if urgency_score \<ge> 7 then ''high''
         else if urgency_score \<ge> 4 then ''medium''
         else ''low'')"

text \<open>
  The computation as the specification words it: the number of keywords of a level that
  occur, the number of patterns that match and the capped question-mark bonus, added to
  the base and clamped.
\<close>

definition keywords_of :: "string \<Rightarrow> string list" where
  "keywords_of level = concat (map snd (filter (\<lambda>kv. fst kv = level) urgency_keywords))"

definition hits :: "string \<Rightarrow> string list \<Rightarrow> nat" where
  "hits text_lower keywords = length (filter (str_contains text_lower) keywords)"

definition urgency_spec :: "string \<Rightarrow> real" where
  "urgency_spec text =
     (let t = str_lower text;
          raw = 5.0 + 2.0 * real (hits t (keywords_of ''high''))
                    + 1.0 * real (hits t (keywords_of ''medium''))
                    - 1.0 * real (hits t (keywords_of ''low''))
                    + 1.5 * real (length (filter (\<lambda>p. re_search p t) time_patterns))
                    + min (0.5 * real (str_count text (CHR ''?''))) 2.0
      in max 1.0 (min 10.0 raw))"

subsection \<open>Category\<close>

definition work_keywords :: "string list" where
  "work_keywords = [''meeting'', ''project'', ''deadline'', ''report'', ''client'', ''business'',
     ''office'']"

definition personal_keywords :: "string list" where
  "personal_keywords = [''family'', ''friend'', ''personal'', ''vacation'', ''birthday'',
     ''wedding'']"

definition promotional_keywords :: "string list" where
  "promotional_keywords = [''sale'', ''discount'', ''offer'', ''promotion'', ''deal'', ''buy'',
     ''shop'']"

definition social_keywords :: "string list" where
  "social_keywords = [''linkedin'', ''facebook'', ''twitter'', ''social'', ''network'',
     ''connect'']"

text \<open>
  \<open>max(d, key=d.get)\<close> walks the keys of the dictionary in insertion order and keeps
  the first one whose value is the largest; \<open>max(d.values())\<close> is the largest value. The
  dictionary of the classifier is a literal with four entries, given here as its first
  entry and the rest.
\<close>

fun max_first :: "('a \<Rightarrow> nat) \<Rightarrow> 'a \<Rightarrow> 'a list \<Rightarrow> 'a" where
  "max_first key best [] = best"
| "max_first key best (x # xs) = max_first key (if key x > key best then x else best) xs"

definition dict_max_key :: "(string \<times> nat) \<Rightarrow> (string \<times> nat) list \<Rightarrow> string" where
  "dict_max_key kv rest = fst (max_first snd kv rest)"

definition dict_max_value :: "(string \<times> nat) \<Rightarrow> (string \<times> nat) list \<Rightarrow> nat" where
  "dict_max_value kv rest = fold max (map snd rest) (snd kv)"

definition classify_category :: "string \<Rightarrow> string" where
  "classify_category text =
     (let text_lower = str_lower text;
          work_score = length (filter (str_contains text_lower) work_keywords);
          personal_score = length (filter (str_contains text_lower) personal_keywords);
          promotional_score = length (filter (str_contains text_lower) promotional_keywords);
          social_score = length (filter (str_contains text_lower) social_keywords);
          first_entry = (''work'', work_score);
          more_entries = [(''personal'', personal_score), (''promotional'', promotional_score),
                          (''social'', social_score)]
      in if dict_max_value first_entry more_entries > 0
         then dict_max_key first_entry more_entries
         else ''work'')"

text \<open>The four labels in their order of declaration, and the score of each.\<close>

definition categories :: "string list" where
  "categories = [''work'', ''personal'', ''promotional'', ''social'']"

definition category_keywords :: "string \<Rightarrow> string list" where
  "category_keywords c =
     (if c = ''work'' then work_keywords
      else if c = ''personal'' then personal_keywords
      else if c = ''promotional'' then promotional_keywords
      else if c = ''social'' then social_keywords
      else [])"

definition category_score :: "string \<Rightarrow> string \<Rightarrow> nat" where
  "category_score text c = hits (str_lower text) (category_keywords c)"


section \<open>Dates, times and JSON values\<close>

subsection \<open>\<open>datetime\<close> and \<open>timedelta\<close>\<close>

text \<open>
  A \<open>datetime\<close> is the number of microseconds since 0001-01-01 00:00:00 and a
  \<open>date\<close> the number of days since 0001-01-01 (a Monday); the largest \<open>datetime\<close> is
  9999-12-31 23:59:59.999999. A \<open>timedelta\<close> is a number of microseconds of at most
  999999999 days in size. Arithmetic that leaves these ranges raises \<open>OverflowError\<close>,
  which the operations below return as \<open>None\<close>. A time-zone offset that a parsed
  \<open>datetime\<close> may carry is kept unchanged by the arithmetic and is not modelled.
\<close>

type_synonym datetime = int
type_synonym date = int
type_synonym timedelta = int

definition us_minute :: int where "us_minute = 60000000"
definition us_hour :: int where "us_hour = 3600000000"
definition us_day :: int where "us_day = 86400000000"

definition date_max :: date where "date_max = 3652058"
definition dt_max :: datetime where "dt_max = 3652059 * 86400000000 - 1"

definition td_range :: "int \<Rightarrow> timedelta option" where
  "td_range us =
     (if - (999999999 * 86400000000) \<le> us \<and> us < 1000000000 * 86400000000
      then Some us else None)"

definition timedelta_hours :: "int \<Rightarrow> timedelta option" where
  "timedelta_hours h = td_range (h * us_hour)"

definition timedelta_minutes :: "int \<Rightarrow> timedelta option" where
  "timedelta_minutes m = td_range (m * us_minute)"

definition dt_add :: "datetime \<Rightarrow> timedelta \<Rightarrow> datetime option" where
  "dt_add t d = (if 0 \<le> t + d \<and> t + d \<le> dt_max then Some (t + d) else None)"

definition date_add :: "date \<Rightarrow> int \<Rightarrow> date option" where
  "date_add d n = (if 0 \<le> d + n \<and> d + n \<le> date_max then Some (d + n) else None)"

definition date_of :: "datetime \<Rightarrow> date" where
  "date_of t = t div us_day"

text \<open>\<open>date.weekday()\<close>: Monday is 0 and Sunday is 6.\<close>

definition weekday :: "date \<Rightarrow> int" where
  "weekday d = d mod 7"

text \<open>\<open>datetime.combine(d, datetime.min.time().replace(hour=h))\<close>\<close>

definition combine_hour :: "date \<Rightarrow> int \<Rightarrow> datetime" where
  "combine_hour d h = d * us_day + h * us_hour"

subsection \<open>Calendar dates\<close>

definition is_leap :: "int \<Rightarrow> bool" where
  "is_leap y = (y mod 4 = 0 \<and> (y mod 100 \<noteq> 0 \<or> y mod 400 = 0))"

definition days_in_month :: "int \<Rightarrow> int \<Rightarrow> int" where
  "days_in_month y m =
     (if m = 2 then (if is_leap y then 29 else 28)
      else if m = 4 \<or> m = 6 \<or> m = 9 \<or> m = 11 then 30 else 31)"

definition days_before_year :: "int \<Rightarrow> int" where
  "days_before_year y = (y - 1) * 365 + (y - 1) div 4 - (y - 1) div 100 + (y - 1) div 400"

definition days_before_month :: "int \<Rightarrow> int \<Rightarrow> int" where
  "days_before_month y m = sum_list (map (days_in_month y) [1..m - 1])"

definition ymd_to_date :: "int \<Rightarrow> int \<Rightarrow> int \<Rightarrow> date option" where
  "ymd_to_date y m d =
     (if 1 \<le> y \<and> y \<le> 9999 \<and> 1 \<le> m \<and> m \<le> 12 \<and> 1 \<le> d \<and> d \<le> days_in_month y m
      then Some (days_before_year y + days_before_month y m + (d - 1))
      else None)"

definition mk_datetime :: "int \<Rightarrow> int \<Rightarrow> int \<Rightarrow> int \<Rightarrow> int \<Rightarrow> datetime option" where
  "mk_datetime y m d hh mm =
     (case ymd_to_date y m d of
        None \<Rightarrow> None
      | Some n \<Rightarrow>
          (if 0 \<le> hh \<and> hh \<le> 23 \<and> 0 \<le> mm \<and> mm \<le> 59
           then Some (n * us_day + hh * us_hour + mm * us_minute) else None))"

subsection \<open>Parsing ISO dates\<close>

text \<open>
  \<open>datetime.fromisoformat\<close> belongs to the Python library and the strings it accepts
  differ between versions of the interpreter, so the operations that call it take the
  parser as a parameter \<open>parse\<close>, with \<open>None\<close> for the \<open>ValueError\<close> it raises. The
  function \<open>fromisoformat\<close> below is the parser on the two forms that the extraction
  prompt asks for, \<open>YYYY-MM-DD\<close> and \<open>YYYY-MM-DD HH:MM\<close>, which every version accepts;
  it rejects every other string and is used in the examples, only on these two forms and
  on strings that no version accepts.
\<close>

fun digits_val :: "string \<Rightarrow> int option" where
  "digits_val [] = None"
| "digits_val cs =
     (if list_all is_digit cs
      then Some (foldl (\<lambda>acc c. acc * 10 + (of_char c - 48)) 0 cs) else None)"

definition parse_date :: "string \<Rightarrow> (int \<times> int \<times> int) option" where
  "parse_date s =
     (if length s = 10 \<and> s ! 4 = CHR ''-'' \<and> s ! 7 = CHR ''-''
      then (case (digits_val (take 4 s), digits_val (take 2 (drop 5 s)),
                  digits_val (take 2 (drop 8 s))) of
              (Some y, Some m, Some d) \<Rightarrow> Some (y, m, d)
            | _ \<Rightarrow> None)
      else None)"

definition parse_time :: "string \<Rightarrow> (int \<times> int) option" where
  "parse_time s =
     (if length s = 5 \<and> s ! 2 = CHR '':''
      then (case (digits_val (take 2 s), digits_val (take 2 (drop 3 s))) of
              (Some hh, Some mm) \<Rightarrow> Some (hh, mm)
            | _ \<Rightarrow> None)
      else None)"

definition fromisoformat :: "string \<Rightarrow> datetime option" where
  "fromisoformat s =
     (if length s = 10
      then (case parse_date s of
              None \<Rightarrow> None
            | Some (y, m, d) \<Rightarrow> mk_datetime y m d 0 0)
      else if length s = 16 \<and> s ! 10 = CHR '' ''
      then (case (parse_date (take 10 s), parse_time (drop 11 s)) of
              (Some (y, m, d), Some (hh, mm)) \<Rightarrow> mk_datetime y m d hh mm
            | _ \<Rightarrow> None)
      else None)"

text \<open>\<open>s.replace('Z', '+00:00')\<close>\<close>

definition replace_Z :: "string \<Rightarrow> string" where
  "replace_Z s = concat (map (\<lambda>c. if c = CHR ''Z'' then ''+00:00'' else [c]) s)"

subsection \<open>JSON values\<close>

text \<open>
  The value \<open>json.loads\<close> returns: \<open>None\<close>, a truth value, a number, a string, a list or
  a dictionary (its items in order, each key once).
\<close>

datatype json =
    JNull
  | JBool bool
  | JNum real
  | JStr string
  | JArr "json list"
  | JObj "(string \<times> json) list"

datatype py_error = AttributeError | KeyError | TypeError | ValueError | OverflowError

text \<open>Truth of a value in a condition.\<close>

fun truthy :: "json \<Rightarrow> bool" where
  "truthy JNull = False"
| "truthy (JBool b) = b"
| "truthy (JNum x) = (x \<noteq> 0)"
| "truthy (JStr s) = (s \<noteq> [])"
| "truthy (JArr xs) = (xs \<noteq> [])"
| "truthy (JObj kvs) = (kvs \<noteq> [])"

text \<open>\<open>d.get(k, default)\<close>: only a dictionary has the method.\<close>

fun py_get :: "json \<Rightarrow> string \<Rightarrow> json \<Rightarrow> py_error + json" where
  "py_get (JObj kvs) k dflt = (case map_of kvs k of None \<Rightarrow> Inr dflt | Some v \<Rightarrow> Inr v)"
| "py_get _ k dflt = Inl AttributeError"

text \<open>\<open>d[k]\<close> with a string \<open>k\<close>, for a value that passed a \<open>get\<close> before.\<close>

fun py_item :: "json \<Rightarrow> string \<Rightarrow> py_error + json" where
  "py_item (JObj kvs) k = (case map_of kvs k of None \<Rightarrow> Inl KeyError | Some v \<Rightarrow> Inr v)"
| "py_item _ k = Inl TypeError"

text \<open>The items a \<open>for\<close> loop over the value visits.\<close>

fun py_iter :: "json \<Rightarrow> py_error + json list" where
  "py_iter (JArr xs) = Inr xs"
| "py_iter (JObj kvs) = Inr (map (\<lambda>kv. JStr (fst kv)) kvs)"
| "py_iter (JStr s) = Inr (map (\<lambda>c. JStr [c]) s)"
| "py_iter _ = Inl TypeError"

text \<open>\<open>datetime.fromisoformat(v)\<close> for a JSON value \<open>v\<close>.\<close>

fun parse_json_date :: "(string \<Rightarrow> datetime option) \<Rightarrow> json \<Rightarrow> py_error + datetime" where
  "parse_json_date parse (JStr s) = (case parse s of None \<Rightarrow> Inl ValueError | Some t \<Rightarrow> Inr t)"
| "parse_json_date parse _ = Inl TypeError"

section \<open>The generative-text service (\<open>services/llm_service.py\<close>)\<close>

text \<open>
  The settings hold one API key for each provider; an empty key counts as absent. A call
  to a provider either raises or delivers a text; \<open>json.loads\<close> of the text either raises
  or gives a value, which the outcome carries with it as an option.
\<close>

record settings =
  OPENAI_API_KEY :: string
  ANTHROPIC_API_KEY :: string

datatype completion = Raises | Content string "json option"

text \<open>\<open>s.strip()\<close> removes the white space at both ends.\<close>

definition is_space :: "char \<Rightarrow> bool" where
  "is_space c =
     (let n = (of_char c :: nat)
      in (9 \<le> n \<and> n \<le> 13) \<or> (28 \<le> n \<and> n \<le> 32) \<or> n = 133 \<or> n = 160)"

definition str_strip :: "string \<Rightarrow> string" where
  "str_strip s = rev (dropWhile is_space (rev (dropWhile is_space s)))"

definition fallback_reply :: "string \<Rightarrow> string" where
  "fallback_reply tone =
     (let replies =
        [(''professional'',
            ''Thank you for your email. I will review this and get back to you soon.''),
         (''friendly'',
            ''Hi! Thanks for reaching out. I'' @ [CHR 0x27] @
            ''ll take a look at this and respond shortly.''),
         (''brief'', ''Thanks for the email. Will respond soon.'')]
      in case map_of replies tone of
           Some r \<Rightarrow> r
         | None \<Rightarrow> ''Thank you for your email. I will review this and get back to you soon.'')"

text \<open>
  \<open>generate_reply\<close>: the result \<open>None\<close> is Python's \<open>None\<close>, which the function
  returns when it reaches the end of the \<open>try\<close> block without a \<open>return\<close>.
\<close>

definition generate_reply ::
  "settings \<Rightarrow> completion \<Rightarrow> completion \<Rightarrow> string \<Rightarrow> string \<Rightarrow> string option" where
  "generate_reply cfg openai_call anthropic_call email_content tone =
     (if OPENAI_API_KEY cfg \<noteq> []
      then (case openai_call of
              Raises \<Rightarrow> Some (fallback_reply tone)
            | Content txt _ \<Rightarrow> Some (str_strip txt))
      else if ANTHROPIC_API_KEY cfg \<noteq> []
      then (case anthropic_call of
              Raises \<Rightarrow> Some (fallback_reply tone)
            | Content txt _ \<Rightarrow> Some (str_strip txt))
      else None)"

definition empty_extraction :: json where
  "empty_extraction = JObj [(''tasks'', JArr []), (''events'', JArr [])]"

text \<open>
  \<open>extract_tasks_and_events\<close>: without an OpenAI key the \<open>try\<close> block ends without a
  \<open>return\<close> and the result is Python's \<open>None\<close>, here \<open>JNull\<close>.
\<close>

definition extract_tasks_and_events :: "settings \<Rightarrow> completion \<Rightarrow> string \<Rightarrow> json" where
  "extract_tasks_and_events cfg openai_call email_content =
     (if OPENAI_API_KEY cfg \<noteq> []
      then (case openai_call of
              Raises \<Rightarrow> empty_extraction
            | Content txt None \<Rightarrow> empty_extraction
            | Content txt (Some result) \<Rightarrow> result)
      else JNull)"

definition fallback_summary :: "string \<Rightarrow> json" where
  "fallback_summary email_content =
     JObj [(''summary'', JStr (''Email summary unavailable. Content preview: '' @
                               take 100 email_content @ ''...'')),
           (''key_points'', JArr [JStr ''LLM service unavailable'']),
           (''action_items'', JArr []),
           (''sentiment'', JStr ''neutral''),
           (''urgency_score'', JNum 5),
           (''category'', JStr ''work''),
           (''priority'', JStr ''medium''),
           (''entities'', JObj [(''people'', JArr []), (''organizations'', JArr []),
                                (''dates'', JArr []), (''locations'', JArr [])])]"

definition summarize_email ::
  "settings \<Rightarrow> completion \<Rightarrow> completion \<Rightarrow> string \<Rightarrow> string \<Rightarrow> json" where
  "summarize_email cfg openai_call anthropic_call email_content model =
     (if model = ''openai'' \<and> OPENAI_API_KEY cfg \<noteq> []
      then (case openai_call of
              Content txt (Some result) \<Rightarrow> result
            | _ \<Rightarrow> fallback_summary email_content)
      else if model = ''anthropic'' \<and> ANTHROPIC_API_KEY cfg \<noteq> []
      then (case anthropic_call of
              Content txt (Some result) \<Rightarrow> result
            | _ \<Rightarrow> fallback_summary email_content)
      else fallback_summary email_content)"

section \<open>The local store (\<open>models/\<close>)\<close>

text \<open>
  Each table is the list of its rows in the order of insertion. The records keep the
  columns that the operations below read or compute. The title and the description of a
  reminder and the title, description, location and attendees of a calendar event are
  copied from the request and are left out of the rows; so are the sentiment of an email,
  which an external library computes, and the generated texts of a summary. The type and
  the priority of a reminder are the texts in the table, or \<open>None\<close> for NULL.
\<close>

record user =
  u_id :: nat
  u_gmail_token :: "string option"
  u_calendar_token :: "string option"

record email =
  e_id :: nat
  e_gmail_id :: string
  e_user_id :: nat
  e_sender :: string
  e_recipient :: string
  e_subject :: string
  e_body :: string
  e_html_body :: string
  e_timestamp :: datetime
  e_has_attachment :: bool
  e_thread_id :: string
  e_priority :: string
  e_category :: string
  e_urgency_score :: real
  e_is_read :: bool
  e_is_processed :: bool
  e_processed_at :: "datetime option"

record email_summary =
  s_id :: nat
  s_email_id :: nat
  s_suggested_response :: "string option"
  s_response_tone :: string
  s_model_used :: string

record reminder =
  r_id :: nat
  r_user_id :: nat
  r_email_id :: "nat option"
  r_due_date :: datetime
  r_reminder_time :: datetime
  r_type :: "string option"
  r_priority :: "string option"
  r_is_completed :: bool
  r_completed_at :: "datetime option"
  r_is_snoozed :: bool
  r_snooze_until :: "datetime option"

record calendar_event =
  ce_id :: nat
  ce_user_id :: nat
  ce_start_time :: datetime
  ce_end_time :: datetime
  ce_created_from_email :: "nat option"

record database =
  emails :: "email list"
  summaries :: "email_summary list"
  reminders :: "reminder list"
  calendar_events :: "calendar_event list"

text \<open>The key the store gives a new row: one more than the largest key of the table.\<close>

definition next_id :: "nat list \<Rightarrow> nat" where
  "next_id ids = Suc (fold max ids 0)"

datatype http_error = Http401 | Http404 | Http500

section \<open>Synchronisation of emails (\<open>endpoints/email.py\<close>)\<close>

text \<open>A fetched message, as \<open>GmailService._parse_email\<close> builds it.\<close>

record gmail_email =
  g_gmail_id :: string
  g_thread_id :: string
  g_sender :: string
  g_recipient :: string
  g_subject :: string
  g_body :: string
  g_html_body :: string
  g_timestamp :: string
  g_has_attachment :: bool

text \<open>
  The body of the loop of \<open>process_emails\<close> for one message: a message whose
  \<open>gmail_id\<close> is in the table is passed over; so is a message whose timestamp the parser
  rejects, since the exception is caught and the loop continues. The analysis itself
  catches its own errors. \<open>now\<close> is the reading of the clock.
\<close>

definition process_email ::
  "(string \<Rightarrow> datetime option) \<Rightarrow> datetime \<Rightarrow> nat \<Rightarrow> gmail_email \<Rightarrow> email list \<Rightarrow> email list"
  where
  "process_email parse now user_id gmail_email db =
     (case find (\<lambda>e. e_gmail_id e = g_gmail_id gmail_email) db of
        Some existing \<Rightarrow> db
      | None \<Rightarrow>
          (let full_text = g_subject gmail_email @ '' '' @ g_body gmail_email
           in case parse (replace_Z (g_timestamp gmail_email)) of
                None \<Rightarrow> db
              | Some ts \<Rightarrow>
                  db @ [\<lparr>e_id = next_id (map e_id db),
                         e_gmail_id = g_gmail_id gmail_email,
                         e_user_id = user_id,
                         e_sender = g_sender gmail_email,
                         e_recipient = g_recipient gmail_email,
                         e_subject = g_subject gmail_email,
                         e_body = g_body gmail_email,
                         e_html_body = g_html_body gmail_email,
                         e_timestamp = ts,
                         e_has_attachment = g_has_attachment gmail_email,
                         e_thread_id = g_thread_id gmail_email,
                         e_priority = classify_priority full_text,
                         e_category = classify_category full_text,
                         e_urgency_score = calculate_urgency_score full_text,
                         e_is_read = False,
                         e_is_processed = True,
                         e_processed_at = Some now\<rparr>]))"

fun process_emails ::
  "(string \<Rightarrow> datetime option) \<Rightarrow> datetime \<Rightarrow> nat \<Rightarrow> gmail_email list \<Rightarrow> email list \<Rightarrow> email list"
  where
  "process_emails parse now user_id [] db = db"
| "process_emails parse now user_id (gmail_email # rest) db =
     process_emails parse now user_id rest (process_email parse now user_id gmail_email db)"

text \<open>
  \<open>sync_emails\<close>: the first user must have a Gmail token; the fetch may raise; the
  answer carries the number of fetched messages and the batch is handed to a background
  task that runs \<open>process_emails\<close> later.
\<close>

record sync_response =
  sync_count :: nat
  sync_task :: "gmail_email list \<times> nat"

definition sync_emails :: "user option \<Rightarrow> gmail_email list option \<Rightarrow> http_error + sync_response"
  where
  "sync_emails first_user fetched =
     (case first_user of
        None \<Rightarrow> Inl Http401
      | Some u \<Rightarrow>
          (if u_gmail_token u = None \<or> u_gmail_token u = Some [] then Inl Http401
           else (case fetched of
                   None \<Rightarrow> Inl Http500
                 | Some gmail_emails \<Rightarrow>
                     Inr \<lparr>sync_count = length gmail_emails,
                          sync_task = (gmail_emails, u_id u)\<rparr>)))"

text \<open>The number of records the background task of a synchronisation adds to the table.\<close>

definition inserted_count ::
  "(string \<Rightarrow> datetime option) \<Rightarrow> datetime \<Rightarrow> sync_response \<Rightarrow> email list \<Rightarrow> nat" where
  "inserted_count parse now r db =
     length (process_emails parse now (snd (sync_task r)) (fst (sync_task r)) db) - length db"

text \<open>The external ids in the table, and the messages whose timestamp the parser accepts.\<close>

definition gmail_ids :: "email list \<Rightarrow> string set" where
  "gmail_ids db = set (map e_gmail_id db)"

definition parses :: "(string \<Rightarrow> datetime option) \<Rightarrow> gmail_email \<Rightarrow> bool" where
  "parses parse g = (parse (replace_Z (g_timestamp g)) \<noteq> None)"

text \<open>A fetched message with a given id and \<open>Date\<close> header, for the examples.\<close>

definition sample_message :: "string \<Rightarrow> string \<Rightarrow> gmail_email" where
  "sample_message gid date_header =
     \<lparr>g_gmail_id = gid, g_thread_id = ''t1'', g_sender = ''ann@example.com'',
      g_recipient = ''bob@example.com'', g_subject = ''Report'', g_body = ''Please reply soon'',
      g_html_body = [], g_timestamp = date_header, g_has_attachment = False\<rparr>"

section \<open>Summaries (\<open>endpoints/summary.py\<close>)\<close>

text \<open>
  \<open>generate_email_summary\<close> answers at once and leaves the work to a background task,
  \<open>create_email_summary\<close>, which runs later. The pending tasks are a list; the provider
  calls a task makes are given by their outcomes.
\<close>

record generate_summary_request =
  q_model :: string
  q_include_response :: bool
  q_response_tone :: string

record summary_task =
  t_email_id :: nat
  t_model :: string
  t_include_response :: bool
  t_response_tone :: string

datatype summary_response = Summary_already_exists nat | Summary_generation_started nat

definition generate_email_summary ::
  "nat \<Rightarrow> generate_summary_request \<Rightarrow> database \<Rightarrow> summary_task list
     \<Rightarrow> http_error + (summary_response \<times> summary_task list)" where
  "generate_email_summary email_id request db tasks =
     (case find (\<lambda>e. e_id e = email_id) (emails db) of
        None \<Rightarrow> Inl Http404
      | Some email \<Rightarrow>
          (case find (\<lambda>s. s_email_id s = email_id) (summaries db) of
             Some existing_summary \<Rightarrow> Inr (Summary_already_exists (s_id existing_summary), tasks)
           | None \<Rightarrow>
               Inr (Summary_generation_started email_id,
                    tasks @ [\<lparr>t_email_id = email_id, t_model = q_model request,
                              t_include_response = q_include_response request,
                              t_response_tone = q_response_tone request\<rparr>])))"

record llm_calls =
  summarize_openai :: completion
  summarize_anthropic :: completion
  reply_openai :: completion
  reply_anthropic :: completion

text \<open>
  The task stores a summary for its email whenever the email exists and the summary data
  is a dictionary; it does not look for a summary that is already there. Any exception
  ends in a rollback, which leaves the store as it was.
\<close>

definition create_email_summary :: "settings \<Rightarrow> llm_calls \<Rightarrow> summary_task \<Rightarrow> database \<Rightarrow> database"
  where
  "create_email_summary cfg calls task db =
     (case find (\<lambda>e. e_id e = t_email_id task) (emails db) of
        None \<Rightarrow> db
      | Some email \<Rightarrow>
          (let email_content = ''Subject: '' @ e_subject email @ [CHR 0x0A, CHR 0x0A] @
                 ''From: '' @ e_sender email @ [CHR 0x0A] @ ''To: '' @ e_recipient email @
                 [CHR 0x0A, CHR 0x0A] @ e_body email;
               summary_data = summarize_email cfg (summarize_openai calls)
                 (summarize_anthropic calls) email_content (t_model task);
               suggested_response =
                 (if t_include_response task
                  then generate_reply cfg (reply_openai calls) (reply_anthropic calls)
                         email_content (t_response_tone task)
                  else None)
           in case py_get summary_data ''summary'' (JStr []) of
                Inl err \<Rightarrow> db
              | Inr text \<Rightarrow>
                  db\<lparr>summaries := summaries db @
                       [\<lparr>s_id = next_id (map s_id (summaries db)),
                         s_email_id = t_email_id task,
                         s_suggested_response = suggested_response,
                         s_response_tone = t_response_tone task,
                         s_model_used = t_model task\<rparr>]\<rparr>))"

text \<open>The steps of the summary service: a request arrives, or the oldest pending task runs.\<close>

datatype summary_event = Trigger nat generate_summary_request | Run_task llm_calls

fun summary_step :: "settings \<Rightarrow> summary_event \<Rightarrow> database \<times> summary_task list
    \<Rightarrow> database \<times> summary_task list" where
  "summary_step cfg (Trigger email_id request) (db, tasks) =
     (case generate_email_summary email_id request db tasks of
        Inl err \<Rightarrow> (db, tasks)
      | Inr (response, tasks') \<Rightarrow> (db, tasks'))"
| "summary_step cfg (Run_task calls) (db, tasks) =
     (case tasks of
        [] \<Rightarrow> (db, [])
      | task # rest \<Rightarrow> (create_email_summary cfg calls task db, rest))"

definition summaries_of :: "nat \<Rightarrow> database \<Rightarrow> email_summary list" where
  "summaries_of email_id db = filter (\<lambda>s. s_email_id s = email_id) (summaries db)"

text \<open>A store with one email and nothing else, and outcomes of provider calls, for the examples.\<close>

definition sample_email :: email where
  "sample_email =
     \<lparr>e_id = 1, e_gmail_id = ''A'', e_user_id = 1, e_sender = ''ann@example.com'',
      e_recipient = ''bob@example.com'', e_subject = ''Report'', e_body = ''Please reply soon'',
      e_html_body = [], e_timestamp = 63840873600000000, e_has_attachment = False,
      e_thread_id = ''t1'', e_priority = ''medium'', e_category = ''work'', e_urgency_score = 6,
      e_is_read = False, e_is_processed = True, e_processed_at = Some 63840873600000000\<rparr>"

definition sample_db :: database where
  "sample_db = \<lparr>emails = [sample_email], summaries = [], reminders = [], calendar_events = []\<rparr>"

definition failing_calls :: llm_calls where
  "failing_calls = \<lparr>summarize_openai = Raises, summarize_anthropic = Raises,
     reply_openai = Raises, reply_anthropic = Raises\<rparr>"

definition sample_request :: generate_summary_request where
  "sample_request = \<lparr>q_model = ''openai'', q_include_response = True,
     q_response_tone = ''professional''\<rparr>"

text \<open>The settings of an installation without any API key (the defaults of \<open>core/config.py\<close>).\<close>

definition no_keys :: settings where
  "no_keys = \<lparr>OPENAI_API_KEY = [], ANTHROPIC_API_KEY = []\<rparr>"

section \<open>Reminders (\<open>endpoints/reminders.py\<close>)\<close>

subsection \<open>Extraction of reminders and events from an email\<close>

text \<open>
  A step that may raise gives a value or the exception; \<open>sum_bind\<close> passes the value
  on and stops at the first exception.
\<close>

definition sum_bind :: "'e + 'a \<Rightarrow> ('a \<Rightarrow> 'e + 'b) \<Rightarrow> 'e + 'b" where
  "sum_bind x f = (case x of Inl e \<Rightarrow> Inl e | Inr v \<Rightarrow> f v)"

definition raise_none :: "'e \<Rightarrow> 'a option \<Rightarrow> 'e + 'a" where
  "raise_none e x = (case x of None \<Rightarrow> Inl e | Some v \<Rightarrow> Inr v)"

text \<open>
  What the database driver makes of a Python value that is written to a text column:
  \<open>None\<close> when it cannot bind the value and raises, \<open>Some None\<close> for SQL's NULL and
  \<open>Some (Some s)\<close> for the text \<open>s\<close>. Every driver stores a string as it is and Python's
  \<open>None\<close> as NULL; what it does with a number, a truth value, a list or a dictionary
  depends on the database and is a parameter \<open>driver\<close> of the operations.
\<close>

definition bind_text :: "(json \<Rightarrow> string option option) \<Rightarrow> json \<Rightarrow> string option option" where
  "bind_text driver v = (case v of JNull \<Rightarrow> Some None | JStr s \<Rightarrow> Some (Some s) | _ \<Rightarrow> driver v)"

definition can_bind :: "(json \<Rightarrow> string option option) \<Rightarrow> json \<Rightarrow> bool" where
  "can_bind driver v = (bind_text driver v \<noteq> None)"

definition stored_text :: "(json \<Rightarrow> string option option) \<Rightarrow> json \<Rightarrow> string option" where
  "stored_text driver v = (case bind_text driver v of None \<Rightarrow> None | Some stored \<Rightarrow> stored)"

text \<open>
  A column with a default gets the default when the attribute of the new object is
  \<open>None\<close>: the type and the priority of a reminder are such columns.
\<close>

definition with_default :: "string \<Rightarrow> json \<Rightarrow> json" where
  "with_default dflt v = (case v of JNull \<Rightarrow> JStr dflt | _ \<Rightarrow> v)"

text \<open>
  A row that was added to the session has no key before the commit: it is a function of
  the key it will get. With it go the values that the commit writes to its text columns
  (for a reminder: title, description, type and priority; for a calendar event: title,
  description and location).
\<close>

type_synonym pending_reminder = "(nat \<Rightarrow> reminder) \<times> json list"
type_synonym pending_event = "(nat \<Rightarrow> calendar_event) \<times> json list"

text \<open>
  The body of the loop over the tasks. A value that is not a dictionary, a missing title,
  a due date that is no string or that the parser rejects, and a date out of range raise;
  the loop catches the exception and goes on without a reminder for the task.
\<close>

definition task_step ::
  "(json \<Rightarrow> string option option) \<Rightarrow> (string \<Rightarrow> datetime option) \<Rightarrow> datetime \<Rightarrow> nat \<Rightarrow> nat
     \<Rightarrow> json \<Rightarrow> py_error + pending_reminder" where
  "task_step driver parse now user_id email_id task_data =
     sum_bind (py_get task_data ''due_date'' JNull) (\<lambda>given.
     sum_bind (if truthy given
               then sum_bind (py_item task_data ''due_date'') (parse_json_date parse)
               else raise_none OverflowError (dt_add now (7 * us_day))) (\<lambda>due_date.
     sum_bind (py_item task_data ''title'') (\<lambda>title.
     sum_bind (py_get task_data ''description'' (JStr [])) (\<lambda>description.
     sum_bind (py_get task_data ''type'' (JStr ''task'')) (\<lambda>type.
     sum_bind (py_get task_data ''priority'' (JStr ''medium'')) (\<lambda>priority.
     sum_bind (raise_none OverflowError (dt_add due_date (- (2 * us_hour)))) (\<lambda>reminder_time.
       Inr (\<lambda>key. \<lparr>r_id = key, r_user_id = user_id, r_email_id = Some email_id,
                     r_due_date = due_date, r_reminder_time = reminder_time,
                     r_type = stored_text driver (with_default ''task'' type),
                     r_priority = stored_text driver (with_default ''medium'' priority),
                     r_is_completed = False, r_completed_at = None,
                     r_is_snoozed = False, r_snooze_until = None\<rparr>,
            [title, description, with_default ''task'' type,
             with_default ''medium'' priority]))))))))"

text \<open>
  The body of the loop over the events gives the rows it added to the session: none for an
  event without a start time or with an exception before the calendar event is added, the
  calendar event alone when the construction of its reminder raises, and both otherwise.
  The title and the description of the reminder of an event are formatted strings, its
  type and priority are fixed strings: the commit can always write them.
\<close>

definition event_step ::
  "(string \<Rightarrow> datetime option) \<Rightarrow> nat \<Rightarrow> nat \<Rightarrow> json
     \<Rightarrow> pending_event list \<times> pending_reminder list" where
  "event_step parse user_id email_id event_data =
     (case py_get event_data ''start_time'' JNull of
        Inl err \<Rightarrow> ([], [])
      | Inr given \<Rightarrow>
          if \<not> truthy given then ([], [])
          else
            (case
               sum_bind (py_item event_data ''start_time'') (\<lambda>s.
               sum_bind (parse_json_date parse s) (\<lambda>start_time.
               sum_bind (raise_none OverflowError (dt_add start_time us_hour)) (\<lambda>default_end.
               sum_bind (py_get event_data ''end_time'' JNull) (\<lambda>given_end.
               sum_bind (if truthy given_end
                         then sum_bind (py_item event_data ''end_time'') (parse_json_date parse)
                         else Inr default_end) (\<lambda>end_time.
               sum_bind (py_item event_data ''title'') (\<lambda>title.
               sum_bind (py_get event_data ''description'' (JStr [])) (\<lambda>description.
               sum_bind (py_get event_data ''location'' JNull) (\<lambda>location.
                 Inr (start_time, end_time, [title, description, location])))))))))
             of
               Inl err \<Rightarrow> ([], [])
             | Inr (start_time, end_time, texts) \<Rightarrow>
                 (let calendar_event =
                        (\<lambda>key. \<lparr>ce_id = key, ce_user_id = user_id,
                                 ce_start_time = start_time, ce_end_time = end_time,
                                 ce_created_from_email = Some email_id\<rparr>, texts)
                  in case dt_add start_time (- (15 * us_minute)) of
                       None \<Rightarrow> ([calendar_event], [])
                     | Some reminder_time \<Rightarrow>
                         ([calendar_event],
                          [(\<lambda>key. \<lparr>r_id = key, r_user_id = user_id, r_email_id = Some email_id,
                                    r_due_date = start_time, r_reminder_time = reminder_time,
                                    r_type = Some ''meeting'', r_priority = Some ''medium'',
                                    r_is_completed = False, r_completed_at = None,
                                    r_is_snoozed = False, r_snooze_until = None\<rparr>, [])]))))"

text \<open>The commit gives each pending row the next key of its table, in the order of the session.\<close>

fun insert_reminders :: "(nat \<Rightarrow> reminder) list \<Rightarrow> reminder list \<Rightarrow> reminder list" where
  "insert_reminders [] table = table"
| "insert_reminders (row # rows) table =
     insert_reminders rows (table @ [row (next_id (map r_id table))])"

fun insert_events :: "(nat \<Rightarrow> calendar_event) list \<Rightarrow> calendar_event list \<Rightarrow> calendar_event list"
  where
  "insert_events [] table = table"
| "insert_events (row # rows) table =
     insert_events rows (table @ [row (next_id (map ce_id table))])"

definition task_rows ::
  "(json \<Rightarrow> string option option) \<Rightarrow> (string \<Rightarrow> datetime option) \<Rightarrow> datetime \<Rightarrow> nat \<Rightarrow> nat
     \<Rightarrow> json list \<Rightarrow> pending_reminder list" where
  "task_rows driver parse now user_id email_id items =
     concat (map (\<lambda>task_data. case task_step driver parse now user_id email_id task_data of
                                 Inl err \<Rightarrow> [] | Inr row \<Rightarrow> [row]) items)"

text \<open>
  The part of \<open>process_email_for_reminders\<close> after the extraction. An extraction result
  without \<open>get\<close>, or whose tasks or events cannot be iterated, raises outside the two
  loops: the session is rolled back and the store stays as it was. The one commit comes
  after both loops: when the driver cannot bind a value of one of the pending rows, the
  commit raises and the rollback drops every pending row; otherwise all of them are
  stored.
\<close>

definition persist_extraction ::
  "(json \<Rightarrow> string option option) \<Rightarrow> (string \<Rightarrow> datetime option) \<Rightarrow> datetime \<Rightarrow> email \<Rightarrow> nat
     \<Rightarrow> json \<Rightarrow> database \<Rightarrow> database" where
  "persist_extraction driver parse now email email_id extracted db =
     (case
        sum_bind (py_get extracted ''tasks'' (JArr [])) (\<lambda>tasks.
        sum_bind (py_iter tasks) (\<lambda>task_items.
        sum_bind (py_get extracted ''events'' (JArr [])) (\<lambda>events.
        sum_bind (py_iter events) (\<lambda>event_items.
          Inr (task_items, event_items)))))
      of
        Inl err \<Rightarrow> db
      | Inr (task_items, event_items) \<Rightarrow>
          (let from_tasks = task_rows driver parse now (e_user_id email) email_id task_items;
               from_events = map (event_step parse (e_user_id email) email_id) event_items;
               new_reminders = from_tasks @ concat (map snd from_events);
               new_events = concat (map fst from_events)
           in if list_all (can_bind driver)
                   (concat (map snd new_reminders) @ concat (map snd new_events))
              then db\<lparr>reminders := insert_reminders (map fst new_reminders) (reminders db),
                      calendar_events :=
                        insert_events (map fst new_events) (calendar_events db)\<rparr>
              else db))"

definition process_email_for_reminders ::
  "(json \<Rightarrow> string option option) \<Rightarrow> (string \<Rightarrow> datetime option) \<Rightarrow> datetime \<Rightarrow> settings
     \<Rightarrow> completion \<Rightarrow> nat \<Rightarrow> database \<Rightarrow> database" where
  "process_email_for_reminders driver parse now cfg openai_call email_id db =
     (case find (\<lambda>e. e_id e = email_id) (emails db) of
        None \<Rightarrow> db
      | Some email \<Rightarrow>
          (let email_content = ''Subject: '' @ e_subject email @ [CHR 0x0A, CHR 0x0A] @ e_body email;
               extracted = extract_tasks_and_events cfg openai_call email_content
           in persist_extraction driver parse now email email_id extracted db))"

subsection \<open>The operations on reminders\<close>

record create_reminder_request =
  c_due_date :: datetime
  c_type :: string
  c_priority :: string
  c_email_id :: "nat option"

record update_reminder_request =
  up_due_date :: "datetime option"
  up_priority :: "string option"
  up_is_completed :: "bool option"

text \<open>A change of the first row that a query with \<open>.first()\<close> finds.\<close>

fun update_first :: "('a \<Rightarrow> bool) \<Rightarrow> ('a \<Rightarrow> 'a) \<Rightarrow> 'a list \<Rightarrow> 'a list" where
  "update_first P f [] = []"
| "update_first P f (x # xs) = (if P x then f x # xs else x # update_first P f xs)"

fun delete_first :: "('a \<Rightarrow> bool) \<Rightarrow> 'a list \<Rightarrow> 'a list" where
  "delete_first P [] = []"
| "delete_first P (x # xs) = (if P x then xs else x # delete_first P xs)"

definition create_reminder :: "create_reminder_request \<Rightarrow> database \<Rightarrow> http_error + database" where
  "create_reminder request db =
     (case dt_add (c_due_date request) (- us_hour) of
        None \<Rightarrow> Inl Http500
      | Some reminder_time \<Rightarrow>
          Inr (db\<lparr>reminders := reminders db @
                 [\<lparr>r_id = next_id (map r_id (reminders db)), r_user_id = 1,
                   r_email_id = c_email_id request,
                   r_due_date = c_due_date request, r_reminder_time = reminder_time,
                   r_type = Some (c_type request), r_priority = Some (c_priority request),
                   r_is_completed = False, r_completed_at = None,
                   r_is_snoozed = False, r_snooze_until = None\<rparr>]\<rparr>))"

definition apply_update :: "update_reminder_request \<Rightarrow> datetime \<Rightarrow> reminder \<Rightarrow> reminder" where
  "apply_update request now reminder =
     (let reminder = (case up_due_date request of
                        None \<Rightarrow> reminder | Some d \<Rightarrow> reminder\<lparr>r_due_date := d\<rparr>);
          reminder = (case up_priority request of
                        None \<Rightarrow> reminder | Some p \<Rightarrow> reminder\<lparr>r_priority := Some p\<rparr>)
      in case up_is_completed request of
           None \<Rightarrow> reminder
         | Some c \<Rightarrow>
             (if c then reminder\<lparr>r_is_completed := True, r_completed_at := Some now\<rparr>
              else reminder\<lparr>r_is_completed := False\<rparr>))"

definition update_reminder ::
  "nat \<Rightarrow> update_reminder_request \<Rightarrow> datetime \<Rightarrow> database \<Rightarrow> http_error + database" where
  "update_reminder reminder_id request now db =
     (case find (\<lambda>r. r_id r = reminder_id) (reminders db) of
        None \<Rightarrow> Inl Http404
      | Some reminder \<Rightarrow>
          Inr (db\<lparr>reminders := update_first (\<lambda>r. r_id r = reminder_id)
                                  (apply_update request now) (reminders db)\<rparr>))"

definition delete_reminder :: "nat \<Rightarrow> database \<Rightarrow> http_error + database" where
  "delete_reminder reminder_id db =
     (case find (\<lambda>r. r_id r = reminder_id) (reminders db) of
        None \<Rightarrow> Inl Http404
      | Some reminder \<Rightarrow>
          Inr (db\<lparr>reminders := delete_first (\<lambda>r. r_id r = reminder_id) (reminders db)\<rparr>))"

definition complete_reminder :: "nat \<Rightarrow> datetime \<Rightarrow> database \<Rightarrow> http_error + database" where
  "complete_reminder reminder_id now db =
     (case find (\<lambda>r. r_id r = reminder_id) (reminders db) of
        None \<Rightarrow> Inl Http404
      | Some reminder \<Rightarrow>
          Inr (db\<lparr>reminders := update_first (\<lambda>r. r_id r = reminder_id)
                 (\<lambda>r. r\<lparr>r_is_completed := True, r_completed_at := Some now\<rparr>) (reminders db)\<rparr>))"

definition snooze_reminder :: "nat \<Rightarrow> datetime \<Rightarrow> database \<Rightarrow> http_error + database" where
  "snooze_reminder reminder_id snooze_until db =
     (case find (\<lambda>r. r_id r = reminder_id) (reminders db) of
        None \<Rightarrow> Inl Http404
      | Some reminder \<Rightarrow>
          Inr (db\<lparr>reminders := update_first (\<lambda>r. r_id r = reminder_id)
                 (\<lambda>r. r\<lparr>r_is_snoozed := True, r_snooze_until := Some snooze_until\<rparr>)
                 (reminders db)\<rparr>))"

definition get_overdue_reminders :: "datetime \<Rightarrow> database \<Rightarrow> reminder list" where
  "get_overdue_reminders now db =
     filter (\<lambda>r. r_due_date r < now \<and> r_is_completed r = False \<and> r_is_snoozed r = False)
       (reminders db)"

definition get_upcoming_reminders :: "datetime \<Rightarrow> int \<Rightarrow> database \<Rightarrow> http_error + reminder list"
  where
  "get_upcoming_reminders now hours db =
     (case timedelta_hours hours of
        None \<Rightarrow> Inl Http500
      | Some delta \<Rightarrow>
          (case dt_add now delta of
             None \<Rightarrow> Inl Http500
           | Some future \<Rightarrow>
               Inr (sort_key r_due_date
                      (filter (\<lambda>r. now \<le> r_due_date r \<and> r_due_date r \<le> future
                                   \<and> r_is_completed r = False \<and> r_is_snoozed r = False)
                         (reminders db)))))"

text \<open>
  Every operation of the repository that writes the table of reminders, as one step on
  the store; a step that answers with an error leaves the store as it was.
\<close>

datatype reminder_op =
    Create create_reminder_request
  | Update nat update_reminder_request datetime
  | Delete nat
  | Complete nat datetime
  | Snooze nat datetime
  | Extract datetime settings completion nat

definition keep :: "database \<Rightarrow> http_error + database \<Rightarrow> database" where
  "keep db result = (case result of Inl err \<Rightarrow> db | Inr db' \<Rightarrow> db')"

fun reminder_step ::
  "(json \<Rightarrow> string option option) \<Rightarrow> (string \<Rightarrow> datetime option) \<Rightarrow> reminder_op \<Rightarrow> database
     \<Rightarrow> database" where
  "reminder_step driver parse (Create request) db = keep db (create_reminder request db)"
| "reminder_step driver parse (Update reminder_id request now) db =
     keep db (update_reminder reminder_id request now db)"
| "reminder_step driver parse (Delete reminder_id) db = keep db (delete_reminder reminder_id db)"
| "reminder_step driver parse (Complete reminder_id now) db =
     keep db (complete_reminder reminder_id now db)"
| "reminder_step driver parse (Snooze reminder_id snooze_until) db =
     keep db (snooze_reminder reminder_id snooze_until db)"
| "reminder_step driver parse (Extract now cfg openai_call email_id) db =
     process_email_for_reminders driver parse now cfg openai_call email_id db"

definition run_ops ::
  "(json \<Rightarrow> string option option) \<Rightarrow> (string \<Rightarrow> datetime option) \<Rightarrow> reminder_op list \<Rightarrow> database
     \<Rightarrow> database" where
  "run_ops driver parse ops db = fold (reminder_step driver parse) ops db"

section \<open>The local free-time scan (\<open>endpoints/calendar.py\<close>)\<close>

text \<open>
  The scan of \<open>find_free_time\<close> for a user without a calendar token, from the moment
  the busy events have been read from the store. A slot is given by the two times whose
  ISO texts the answer holds. An \<open>OverflowError\<close> of the date arithmetic is not caught
  and ends the request.
\<close>

record slot =
  sl_start :: datetime
  sl_end :: datetime

fun conflict :: "datetime \<Rightarrow> datetime \<Rightarrow> calendar_event list \<Rightarrow> bool" where
  "conflict slot_start slot_end [] = False"
| "conflict slot_start slot_end (event # events) =
     (if slot_start < ce_end_time event \<and> slot_end > ce_start_time event then True
      else conflict slot_start slot_end events)"

text \<open>The \<open>while\<close> loop over the slots of one day.\<close>

function slot_loop ::
  "datetime \<Rightarrow> int \<Rightarrow> datetime \<Rightarrow> calendar_event list \<Rightarrow> py_error + slot list" where
  "slot_loop slot_start duration_minutes day_end busy_events =
     (case timedelta_minutes duration_minutes of
        None \<Rightarrow> Inl OverflowError
      | Some duration \<Rightarrow>
          (case dt_add slot_start duration of
             None \<Rightarrow> Inl OverflowError
           | Some slot_end \<Rightarrow>
               if slot_end \<le> day_end
               then (case dt_add slot_start us_hour of
                       None \<Rightarrow> Inl OverflowError
                     | Some next_start \<Rightarrow>
                         (case slot_loop next_start duration_minutes day_end busy_events of
                            Inl err \<Rightarrow> Inl err
                          | Inr later \<Rightarrow>
                              Inr (if conflict slot_start slot_end busy_events then later
                                   else \<lparr>sl_start = slot_start, sl_end = slot_end\<rparr> # later)))
               else Inr []))"
  by pat_completeness auto
termination
proof (relation "measure (\<lambda>(slot_start, duration_minutes, day_end, busy_events).
    nat (dt_max - slot_start))")
  show "wf (measure (\<lambda>(slot_start, duration_minutes, day_end, busy_events).
    nat (dt_max - slot_start)))"
    by simp
next
  fix slot_start :: datetime and duration_minutes :: int and day_end :: datetime
    and busy_events :: "calendar_event list" and duration slot_end next_start
  assume "dt_add slot_start us_hour = Some next_start"
  then have "next_start = slot_start + us_hour" and "next_start \<le> dt_max"
    by (auto simp: dt_add_def split: if_splits)
  then show "((next_start, duration_minutes, day_end, busy_events),
        (slot_start, duration_minutes, day_end, busy_events))
      \<in> measure (\<lambda>(slot_start, duration_minutes, day_end, busy_events).
          nat (dt_max - slot_start))"
    by (simp add: us_hour_def)
qed

declare slot_loop.simps [simp del]

text \<open>The \<open>for\<close> loop over the days, with the days that are left to visit.\<close>

fun scan_days :: "nat \<Rightarrow> date \<Rightarrow> int \<Rightarrow> calendar_event list \<Rightarrow> py_error + slot list" where
  "scan_days 0 current_date duration_minutes busy_events = Inr []"
| "scan_days (Suc days) current_date duration_minutes busy_events =
     sum_bind (if weekday current_date < 5
               then slot_loop (combine_hour current_date 9) duration_minutes
                      (combine_hour current_date 17) busy_events
               else Inr []) (\<lambda>day_slots.
     sum_bind (raise_none OverflowError (date_add current_date 1)) (\<lambda>next_date.
     sum_bind (scan_days days next_date duration_minutes busy_events) (\<lambda>later.
       Inr (day_slots @ later))))"

definition free_time_scan ::
  "datetime \<Rightarrow> int \<Rightarrow> int \<Rightarrow> calendar_event list \<Rightarrow> py_error + slot list" where
  "free_time_scan now duration_minutes days_ahead busy_events =
     sum_bind (scan_days (nat days_ahead) (date_of now) duration_minutes busy_events)
       (\<lambda>free_slots. Inr (take 10 free_slots))"

text \<open>
  The candidate slots as the specification words them: on each weekday of the window,
  the slots that start at 9 o'clock and every full hour after it and end by 17 o'clock,
  for a duration in minutes.
\<close>

definition day_candidates :: "date \<Rightarrow> int \<Rightarrow> slot list" where
  "day_candidates d duration_minutes =
     map (\<lambda>k. \<lparr>sl_start = combine_hour d 9 + int k * us_hour,
               sl_end = combine_hour d 9 + int k * us_hour + duration_minutes * us_minute\<rparr>)
       [0..<nat ((8 * us_hour - duration_minutes * us_minute) div us_hour + 1)]"

definition candidates :: "date \<Rightarrow> nat \<Rightarrow> int \<Rightarrow> slot list" where
  "candidates d0 days duration_minutes =
     concat (map (\<lambda>i. if weekday (d0 + int i) < 5
                       then day_candidates (d0 + int i) duration_minutes else [])
               [0..<days])"

definition overlaps :: "slot \<Rightarrow> calendar_event \<Rightarrow> bool" where
  "overlaps s event = (sl_start s < ce_end_time event \<and> sl_end s > ce_start_time event)"

definition busy_interval :: "datetime \<Rightarrow> datetime \<Rightarrow> calendar_event" where
  "busy_interval start_time end_time =
     \<lparr>ce_id = 1, ce_user_id = 1, ce_start_time = start_time, ce_end_time = end_time,
      ce_created_from_email = None\<rparr>"















text \<open>
  A driver for the examples: it binds strings and \<open>None\<close> and nothing else. It is used
  only on strings, \<open>None\<close>, lists and dictionaries, where it agrees with the driver of
  SQLite, the database of the default settings.
\<close>

definition text_driver :: "json \<Rightarrow> string option option" where
  "text_driver v = None"

text \<open>
  The reminder with key \<open>rid\<close> is in the table, and every row with that key has the
  snoozed flag.
\<close>

definition kept_snoozed :: "nat \<Rightarrow> reminder list \<Rightarrow> bool" where
  "kept_snoozed rid rs =
     (rid \<in> r_id ` set rs \<and> (\<forall>r\<in>set rs. r_id r = rid \<longrightarrow> r_is_snoozed r))"


text \<open>A store with one reminder, due on 2024-01-15, for the examples.\<close>

definition sample_reminder_db :: database where
  "sample_reminder_db =
     \<lparr>emails = [sample_email], summaries = [],
      reminders = [\<lparr>r_id = 1, r_user_id = 1, r_email_id = None,
                    r_due_date = 63840873600000000, r_reminder_time = 63840870000000000,
                    r_type = Some ''task'', r_priority = Some ''medium'',
                    r_is_completed = False, r_completed_at = None,
                    r_is_snoozed = False, r_snooze_until = None\<rparr>],
      calendar_events = []\<rparr>"

definition sample_ops :: "reminder_op list" where
  "sample_ops =
     [Update 1 \<lparr>up_due_date = Some 63840960000000000, up_priority = Some ''high'',
                up_is_completed = Some False\<rparr> 63840880000000000,
      Create \<lparr>c_due_date = 63841000000000000, c_type = ''task'', c_priority = ''low'',
              c_email_id = None\<rparr>,
      Delete 2,
      Extract 63840890000000000 no_keys Raises 1]"

text \<open>
  The slots from a given start at every full hour, as long as they end by the end of the
  day, and the slot of one hour that starts at a full hour of a day.
\<close>

definition slots_from :: "datetime \<Rightarrow> int \<Rightarrow> datetime \<Rightarrow> slot list" where
  "slots_from s dur day_end =
     map (\<lambda>k. \<lparr>sl_start = s + int k * us_hour, sl_end = s + int k * us_hour + dur * us_minute\<rparr>)
       [0..<nat ((day_end - dur * us_minute - s) div us_hour + 1)]"

definition hour_slot :: "date \<Rightarrow> int \<Rightarrow> slot" where
  "hour_slot d h = \<lparr>sl_start = combine_hour d h, sl_end = combine_hour d (h + 1)\<rparr>"

section \<open>Properties of the heuristic analyser\<close>

subsection \<open>Substrings and the matcher\<close>

inductive_cases matches_EpsE: "matches Eps w"
inductive_cases matches_SeqE: "matches (Seq r q) w"
inductive_cases matches_AltE: "matches (Alt r q) w"

lemma nullable_matches: "nullable r \<Longrightarrow> matches r []"
proof (induction r)
  case (Seq r q)
  then have "matches (Seq r q) ([] @ [])" by (intro m_Seq) auto
  then show ?case by simp
qed (auto intro: matches.intros)

lemma matches_nullable: "matches r w \<Longrightarrow> w = [] \<Longrightarrow> nullable r"
  by (induction rule: matches.induct) auto

lemma nullable_iff: "nullable r = matches r []"
  using nullable_matches matches_nullable by blast

lemma matches_Star_Cons:
  "matches q x \<Longrightarrow> q = Star r \<Longrightarrow> x = c # w \<Longrightarrow>
     \<exists>u v. w = u @ v \<and> matches r (c # u) \<and> matches (Star r) v"
proof (induction arbitrary: w rule: matches.induct)
  case (m_StarStep r0 u v)
  show ?case
  proof (cases u)
    case Nil
    then show ?thesis using m_StarStep by simp
  next
    case (Cons a u')
    then have "a = c" "w = u' @ v" using m_StarStep.prems by auto
    then show ?thesis using m_StarStep.hyps m_StarStep.prems Cons by auto
  qed
qed auto

lemma deriv_sound: "deriv c r = Some r' \<Longrightarrow> matches r' w \<Longrightarrow> matches r (c # w)"
proof (induction r arbitrary: r' w)
  case Eps
  then show ?case by simp
next
  case (Lit d)
  then show ?case by (auto split: if_splits elim!: matches_EpsE intro: matches.intros)
next
  case Dot
  then show ?case by (auto split: if_splits elim!: matches_EpsE intro: matches.intros)
next
  case Digit
  then show ?case by (auto split: if_splits elim!: matches_EpsE intro: matches.intros)
next
  case (Seq r q)
  show ?case
  proof (cases "deriv c r")
    case None
    then have n: "nullable r" and dq: "deriv c q = Some r'"
      using Seq.prems(1) by (auto split: if_splits)
    have "matches q (c # w)" using Seq.IH(2) [OF dq Seq.prems(2)] .
    then have "matches (Seq r q) ([] @ c # w)"
      using n by (intro m_Seq nullable_matches)
    then show ?thesis by simp
  next
    case (Some r1)
    have left: "matches (Seq r1 q) w \<Longrightarrow> matches (Seq r q) (c # w)"
    proof -
      assume "matches (Seq r1 q) w"
      then obtain u v where uv: "w = u @ v" "matches r1 u" "matches q v"
        by (auto elim: matches_SeqE)
      have "matches r (c # u)" using Seq.IH(1) [OF Some uv(2)] .
      then have "matches (Seq r q) ((c # u) @ v)" using uv(3) by (rule m_Seq)
      then show ?thesis using uv(1) by simp
    qed
    show ?thesis
    proof (cases "nullable r")
      case False
      then have "r' = Seq r1 q" using Seq.prems(1) Some by simp
      then show ?thesis using left Seq.prems(2) by simp
    next
      case True
      show ?thesis
      proof (cases "deriv c q")
        case None
        then have "r' = Seq r1 q" using Seq.prems(1) Some True by simp
        then show ?thesis using left Seq.prems(2) by simp
      next
        case (Some q1)
        then have "r' = Alt (Seq r1 q) q1" using Seq.prems(1) \<open>deriv c r = Some r1\<close> True by simp
        then have "matches (Seq r1 q) w \<or> matches q1 w"
          using Seq.prems(2) by (auto elim: matches_AltE)
        then show ?thesis
        proof
          assume "matches (Seq r1 q) w"
          then show ?thesis by (rule left)
        next
          assume "matches q1 w"
          then have "matches q (c # w)" using Seq.IH(2) [OF Some] by simp
          then have "matches (Seq r q) ([] @ c # w)"
            using True by (intro m_Seq nullable_matches)
          then show ?thesis by simp
        qed
      qed
    qed
  qed
next
  case (Alt r q)
  show ?case
  proof (cases "deriv c r")
    case None
    then have "deriv c q = Some r'" using Alt.prems(1) by simp
    then show ?thesis using Alt.IH(2) Alt.prems(2) by (auto intro: m_AltR)
  next
    case (Some r1)
    show ?thesis
    proof (cases "deriv c q")
      case None
      then have "r' = r1" using Alt.prems(1) Some by simp
      then show ?thesis using Alt.IH(1) [OF Some] Alt.prems(2) by (auto intro: m_AltL)
    next
      case (Some q1)
      then have "r' = Alt r1 q1" using Alt.prems(1) \<open>deriv c r = Some r1\<close> by simp
      then have "matches r1 w \<or> matches q1 w" using Alt.prems(2) by (auto elim: matches_AltE)
      then show ?thesis
        using Alt.IH(1) [OF \<open>deriv c r = Some r1\<close>] Alt.IH(2) [OF Some]
        by (auto intro: m_AltL m_AltR)
    qed
  qed
next
  case (Star r)
  then obtain r1 where d: "deriv c r = Some r1" and r': "r' = Seq r1 (Star r)"
    by (auto split: option.splits)
  then obtain u v where uv: "w = u @ v" "matches r1 u" "matches (Star r) v"
    using Star.prems(2) by (auto elim: matches_SeqE)
  have "matches r (c # u)" using Star.IH [OF d uv(2)] .
  then have "matches (Star r) ((c # u) @ v)" using uv(3) by (rule m_StarStep)
  then show ?case using uv(1) by simp
qed

lemma deriv_complete:
  "matches r x \<Longrightarrow> x = c # w \<Longrightarrow> \<exists>r'. deriv c r = Some r' \<and> matches r' w"
proof (induction arbitrary: w rule: matches.induct)
  case m_Eps
  then show ?case by simp
next
  case (m_Lit d)
  then show ?case by (auto intro: matches.intros)
next
  case (m_Dot d)
  then show ?case by (auto intro: matches.intros)
next
  case (m_Digit d)
  then show ?case by (auto intro: matches.intros)
next
  case (m_Seq r u q v)
  show ?case
  proof (cases u)
    case Nil
    then have n: "nullable r" using m_Seq.hyps(1) by (simp add: nullable_iff)
    from Nil m_Seq.prems have "v = c # w" by simp
    then obtain q1 where q1: "deriv c q = Some q1" "matches q1 w"
      using m_Seq.IH(2) by blast
    then show ?thesis
      using n by (cases "deriv c r") (auto intro: m_AltR)
  next
    case (Cons a u')
    then have a: "u = c # u'" "w = u' @ v" using m_Seq.prems by auto
    then obtain r1 where r1: "deriv c r = Some r1" "matches r1 u'"
      using m_Seq.IH(1) by blast
    have s: "matches (Seq r1 q) w" using r1(2) m_Seq.hyps(2) a(2) by (auto intro: matches.m_Seq)
    then show ?thesis
      using r1(1) by (cases "deriv c q") (auto intro: m_AltL)
  qed
next
  case (m_AltL r u q)
  then obtain r1 where "deriv c r = Some r1" "matches r1 w" by blast
  then show ?case by (cases "deriv c q") (auto intro: matches.m_AltL)
next
  case (m_AltR q u r)
  then obtain q1 where "deriv c q = Some q1" "matches q1 w" by blast
  then show ?case by (cases "deriv c r") (auto intro: matches.m_AltR)
next
  case (m_StarNil r)
  then show ?case by simp
next
  case (m_StarStep r u v)
  have "matches (Star r) (u @ v)" using m_StarStep.hyps by (rule matches.m_StarStep)
  then obtain u' v' where uv: "w = u' @ v'" "matches r (c # u')" "matches (Star r) v'"
    using matches_Star_Cons [of "Star r" "u @ v" r c w] m_StarStep.prems by auto
  show ?case
  proof (cases u)
    case Nil
    then show ?thesis using m_StarStep by simp
  next
    case (Cons a u0)
    then have "u = c # u0" "w = u0 @ v" using m_StarStep.prems by auto
    then obtain r1 where "deriv c r = Some r1" "matches r1 u0"
      using m_StarStep.IH(1) by blast
    then show ?thesis
      using m_StarStep.hyps(2) \<open>w = u0 @ v\<close> by (auto intro: matches.m_Seq)
  qed
qed

lemma deriv_matches:
  "matches r (c # w) = (\<exists>r'. deriv c r = Some r' \<and> matches r' w)"
  using deriv_sound deriv_complete by blast

lemma re_match_iff: "re_match r s = (\<exists>u v. s = u @ v \<and> matches r u)"
proof (induction s arbitrary: r)
  case Nil
  show ?case by (simp add: nullable_iff)
next
  case (Cons c cs)
  show ?case
  proof
    assume "re_match r (c # cs)"
    then consider "nullable r" | r' where "deriv c r = Some r'" "re_match r' cs"
      by (auto split: option.splits)
    then show "\<exists>u v. c # cs = u @ v \<and> matches r u"
    proof cases
      case 1
      then have "c # cs = [] @ (c # cs) \<and> matches r []" by (simp add: nullable_iff)
      then show ?thesis by blast
    next
      case 2
      then obtain u v where "cs = u @ v" "matches r' u" using Cons.IH by blast
      then have "c # cs = (c # u) @ v \<and> matches r (c # u)"
        using 2(1) by (auto simp: deriv_matches)
      then show ?thesis by blast
    qed
  next
    assume "\<exists>u v. c # cs = u @ v \<and> matches r u"
    then obtain u v where uv: "c # cs = u @ v" "matches r u" by blast
    show "re_match r (c # cs)"
    proof (cases u)
      case Nil
      then show ?thesis using uv(2) by (simp add: nullable_iff)
    next
      case (Cons a u')
      then have "a = c" "cs = u' @ v" using uv(1) by auto
      then obtain r' where "deriv c r = Some r'" "matches r' u'"
        using uv(2) Cons by (auto simp: deriv_matches)
      then show ?thesis using \<open>cs = u' @ v\<close> Cons.IH by auto
    qed
  qed
qed

lemma re_search_iff: "re_search r s = (\<exists>p u v. s = p @ u @ v \<and> matches r u)"
proof (induction s)
  case Nil
  show ?case by (simp add: nullable_iff)
next
  case (Cons c cs)
  show ?case
  proof
    assume "re_search r (c # cs)"
    then have "re_match r (c # cs) \<or> re_search r cs" by simp
    then show "\<exists>p u v. c # cs = p @ u @ v \<and> matches r u"
    proof
      assume "re_match r (c # cs)"
      then obtain u v where "c # cs = [] @ u @ v" "matches r u"
        by (auto simp: re_match_iff)
      then show ?thesis by blast
    next
      assume "re_search r cs"
      then obtain p u v where "cs = p @ u @ v" "matches r u" using Cons.IH by blast
      then have "c # cs = (c # p) @ u @ v \<and> matches r u" by simp
      then show ?thesis by blast
    qed
  next
    assume "\<exists>p u v. c # cs = p @ u @ v \<and> matches r u"
    then obtain p u v where puv: "c # cs = p @ u @ v" "matches r u" by blast
    show "re_search r (c # cs)"
    proof (cases p)
      case Nil
      then have "re_match r (c # cs)" using puv by (auto simp: re_match_iff)
      then show ?thesis by simp
    next
      case (Cons a p')
      then have "cs = p' @ u @ v" using puv(1) by simp
      then have "re_search r cs" using puv(2) Cons.IH by blast
      then show ?thesis by simp
    qed
  qed
qed

lemma str_contains_iff: "str_contains t k = (\<exists>p v. t = p @ k @ v)"
proof (induction t)
  case Nil
  show ?case by auto
next
  case (Cons c cs)
  show ?case
  proof
    assume "str_contains (c # cs) k"
    then have "prefix k (c # cs) \<or> str_contains cs k" by simp
    then show "\<exists>p v. c # cs = p @ k @ v"
    proof
      assume "prefix k (c # cs)"
      then obtain v where "c # cs = [] @ k @ v" by (auto simp: prefix_def)
      then show ?thesis by blast
    next
      assume "str_contains cs k"
      then obtain p v where "cs = p @ k @ v" using Cons.IH by blast
      then have "c # cs = (c # p) @ k @ v" by simp
      then show ?thesis by blast
    qed
  next
    assume "\<exists>p v. c # cs = p @ k @ v"
    then obtain p v where pv: "c # cs = p @ k @ v" by blast
    show "str_contains (c # cs) k"
    proof (cases p)
      case Nil
      then have "prefix k (c # cs)" using pv by (simp add: prefix_def)
      then show ?thesis by simp
    next
      case (Cons a p')
      then have "cs = p' @ k @ v" using pv by simp
      then show ?thesis using Cons.IH by auto
    qed
  qed
qed

subsection \<open>Urgency\<close>

lemma fold_keyword_step:
  "fold (keyword_step t l) ks sc =
     sc + (if l = ''high'' then 2 else if l = ''medium'' then 1 else if l = ''low'' then - 1 else 0)
          * real (hits t ks)"
  by (induction ks arbitrary: sc) (auto simp: keyword_step_def hits_def algebra_simps)

lemma fold_pattern_step:
  "fold (pattern_step t) ps sc = sc + 1.5 * real (length (filter (\<lambda>p. re_search p t) ps))"
  by (induction ps arbitrary: sc) (auto simp: pattern_step_def algebra_simps)

lemma calculate_urgency_score_eq: "calculate_urgency_score text = urgency_spec text"
  unfolding calculate_urgency_score_def urgency_spec_def Let_def fold_keyword_step
    fold_pattern_step
  by (simp add: urgency_keywords_def keywords_of_def algebra_simps)

text \<open>
  C1. For every text the urgency score of the analyser is the value the specification
  describes: base 5, plus 2 for each high-urgency keyword that occurs in the lower-cased
  text, plus 1 for each medium-urgency keyword, minus 1 for each low-urgency keyword, plus
  1.5 for each of the four time patterns that matches, plus the smaller of half the number
  of question marks and 2, clamped to the interval from 1 to 10; so the score always lies
  between 1 and 10.
\<close>

theorem calculate_urgency_score_spec:
  "calculate_urgency_score text = urgency_spec text
   \<and> 1 \<le> calculate_urgency_score text \<and> calculate_urgency_score text \<le> 10"
proof -
  have "1 \<le> urgency_spec text" and "urgency_spec text \<le> 10"
    by (simp_all add: urgency_spec_def Let_def)
  then show ?thesis by (simp add: calculate_urgency_score_eq)
qed

subsection \<open>Category\<close>

lemma max_first4:
  "fst (max_first snd (a, w) [(b, p), (c, pr), (d, s)]) =
     (if w \<ge> p \<and> w \<ge> pr \<and> w \<ge> s then a
      else if p \<ge> pr \<and> p \<ge> s then b
      else if pr \<ge> s then c else d)"
  by auto

lemma classify_category_cases:
  "classify_category t =
     (let w = category_score t ''work''; p = category_score t ''personal'';
          pr = category_score t ''promotional''; s = category_score t ''social''
      in if w \<ge> p \<and> w \<ge> pr \<and> w \<ge> s then ''work''
         else if p \<ge> pr \<and> p \<ge> s then ''personal''
         else if pr \<ge> s then ''promotional'' else ''social'')"
  unfolding classify_category_def category_score_def category_keywords_def hits_def
    dict_max_key_def dict_max_value_def Let_def max_first4
  by (simp del: max_first.simps)

lemma set_categories: "set categories = {''work'', ''personal'', ''promotional'', ''social''}"
  by (simp add: categories_def)

lemma classify_category_mem: "classify_category t \<in> set categories"
  unfolding set_categories by (simp add: classify_category_cases Let_def)

lemma classify_category_max:
  "c \<in> set categories \<Longrightarrow> category_score t c \<le> category_score t (classify_category t)"
  unfolding set_categories by (auto simp: classify_category_cases Let_def)

lemma classify_category_first:
  "c \<in> set (takeWhile (\<lambda>c. c \<noteq> classify_category t) categories) \<Longrightarrow>
     category_score t c < category_score t (classify_category t)"
  by (auto simp: classify_category_cases Let_def categories_def split: if_splits)

lemma classify_category_zero:
  "(\<forall>c\<in>set categories. category_score t c = 0) \<Longrightarrow> classify_category t = ''work''"
  unfolding set_categories by (simp add: classify_category_cases Let_def)

lemma classify_category_lower:
  "str_lower t' = str_lower t \<Longrightarrow> classify_category t' = classify_category t"
  by (simp add: classify_category_def)

text \<open>
  C7. The classifier is a total function (it has no failing step) and its result is one
  of the four labels work, personal, promotional, social. The result has the largest of
  the four scores, every label declared before it has a strictly smaller score (ties go
  to the label declared first), it is work when all four scores are zero, and it depends
  on the text only through its lower-cased form (the keyword test ignores case).
\<close>

theorem classify_category_ok:
  "classify_category t \<in> set categories
   \<and> (\<forall>c\<in>set categories. category_score t c \<le> category_score t (classify_category t))
   \<and> (\<forall>c\<in>set (takeWhile (\<lambda>c. c \<noteq> classify_category t) categories).
         category_score t c < category_score t (classify_category t))
   \<and> ((\<forall>c\<in>set categories. category_score t c = 0) \<longrightarrow> classify_category t = ''work'')
   \<and> (\<forall>t'. str_lower t' = str_lower t \<longrightarrow> classify_category t' = classify_category t)"
  using classify_category_mem classify_category_max classify_category_first
    classify_category_zero classify_category_lower by blast

theorem classify_category_ok_witness:
  "list_all (\<lambda>c. category_score ''see you at the sale'' c \<le> 1) categories
   \<and> category_score ''see you at the sale'' ''work'' < 1
   \<and> classify_category ''see you at the sale'' = ''promotional''
   \<and> classify_category ''See You At The SALE'' = ''promotional''
   \<and> list_all (\<lambda>c. category_score ''see you'' c = 0) categories
   \<and> classify_category ''see you'' = ''work''"
proof -
  have r: "classify_category ''see you at the sale'' = ''promotional''"
    by code_simp
  have l: "str_lower ''See You At The SALE'' = str_lower ''see you at the sale''"
    by code_simp
  have z: "\<forall>c\<in>set categories. category_score ''see you'' c = 0"
    by code_simp
  have s: "category_score ''see you at the sale'' ''promotional'' = 1"
    by code_simp
  have m: "''work'' \<in> set (takeWhile (\<lambda>c. c \<noteq> ''promotional'') categories)"
    by code_simp
  from classify_category_ok [of "''see you at the sale''"] classify_category_ok [of "''see you''"]
    r l z s m
  show ?thesis by (simp add: list_all_iff)
qed

section \<open>Properties of the synchronisation\<close>

lemma find_gmail_id:
  "(find (\<lambda>e. e_gmail_id e = k) db = None) = (k \<notin> gmail_ids db)"
  by (auto simp: find_None_iff gmail_ids_def)

lemma process_email_new_id:
  "g_gmail_id g \<notin> gmail_ids db \<Longrightarrow> parses parse g \<Longrightarrow>
     \<exists>e. process_email parse now uid g db = db @ [e] \<and> e_gmail_id e = g_gmail_id g"
  by (auto simp: process_email_def parses_def find_gmail_id[symmetric] Let_def)

lemma process_email_same:
  assumes "g_gmail_id g \<in> gmail_ids db \<or> \<not> parses parse g"
  shows "process_email parse now uid g db = db"
proof (cases "find (\<lambda>e. e_gmail_id e = g_gmail_id g) db")
  case None
  then have "\<not> parses parse g" using assms by (simp add: find_gmail_id)
  then show ?thesis using None by (simp add: process_email_def parses_def Let_def)
next
  case (Some a)
  then show ?thesis by (simp add: process_email_def)
qed

lemma process_email_changes_iff:
  "(process_email parse now uid g db \<noteq> db) = (g_gmail_id g \<notin> gmail_ids db \<and> parses parse g)"
  using process_email_new_id[of g db parse now uid] process_email_same[of g db parse now uid]
  by auto

lemma process_email_ids:
  "gmail_ids (process_email parse now uid g db) =
     gmail_ids db \<union> (if parses parse g then {g_gmail_id g} else {})"
proof (cases "g_gmail_id g \<in> gmail_ids db \<or> \<not> parses parse g")
  case True
  then show ?thesis by (auto simp: process_email_same)
next
  case False
  then obtain e where "process_email parse now uid g db = db @ [e]" "e_gmail_id e = g_gmail_id g"
    using process_email_new_id by blast
  then show ?thesis using False by (auto simp: gmail_ids_def)
qed

lemma process_emails_ids:
  "gmail_ids (process_emails parse now uid batch db) =
     gmail_ids db \<union> g_gmail_id ` {g \<in> set batch. parses parse g}"
  by (induction batch arbitrary: db) (auto simp: process_email_ids)

lemma process_emails_same:
  "\<forall>g\<in>set batch. g_gmail_id g \<in> gmail_ids db \<or> \<not> parses parse g \<Longrightarrow>
     process_emails parse now uid batch db = db"
  by (induction batch arbitrary: db) (auto simp: process_email_same)

lemma process_emails_idem:
  "process_emails parse now' uid' batch (process_emails parse now uid batch db) =
     process_emails parse now uid batch db"
  by (rule process_emails_same) (auto simp: process_emails_ids)

lemma process_email_append:
  "\<exists>new. process_email parse now uid g db = db @ new
      \<and> gmail_ids new \<inter> gmail_ids db = {} \<and> distinct (map e_gmail_id new)"
  using process_email_new_id[of g db parse now uid] process_email_same[of g db parse now uid]
proof (cases "g_gmail_id g \<in> gmail_ids db \<or> \<not> parses parse g")
  case True
  then have "process_email parse now uid g db = db @ []" by (simp add: process_email_same)
  then show ?thesis by (auto simp: gmail_ids_def simp del: append_Nil2)
next
  case False
  then obtain e where "process_email parse now uid g db = db @ [e]" "e_gmail_id e = g_gmail_id g"
    using process_email_new_id by blast
  then show ?thesis using False by (auto simp: gmail_ids_def)
qed

lemma process_emails_append:
  "\<exists>new. process_emails parse now uid batch db = db @ new
      \<and> gmail_ids new \<inter> gmail_ids db = {} \<and> distinct (map e_gmail_id new)"
proof (induction batch arbitrary: db)
  case Nil
  show ?case by (simp add: gmail_ids_def)
next
  case (Cons g batch)
  obtain n1 where n1: "process_email parse now uid g db = db @ n1"
    "gmail_ids n1 \<inter> gmail_ids db = {}" "distinct (map e_gmail_id n1)"
    using process_email_append by blast
  obtain n2 where n2: "process_emails parse now uid batch (db @ n1) = (db @ n1) @ n2"
    "gmail_ids n2 \<inter> gmail_ids (db @ n1) = {}" "distinct (map e_gmail_id n2)"
    using Cons.IH by blast
  have "process_emails parse now uid (g # batch) db = db @ (n1 @ n2)"
    using n1 n2 by simp
  moreover have "gmail_ids (n1 @ n2) \<inter> gmail_ids db = {}"
    using n1 n2 by (auto simp: gmail_ids_def)
  moreover have "distinct (map e_gmail_id (n1 @ n2))"
    using n1 n2 by (auto simp: gmail_ids_def)
  ultimately show ?case by blast
qed

lemma process_emails_new_ids:
  "e \<in> set (drop (length db) (process_emails parse now uid batch db)) \<Longrightarrow>
     e_gmail_id e \<notin> gmail_ids db"
proof -
  assume a: "e \<in> set (drop (length db) (process_emails parse now uid batch db))"
  obtain new where n: "process_emails parse now uid batch db = db @ new"
    "gmail_ids new \<inter> gmail_ids db = {}"
    using process_emails_append by blast
  from a n have "e \<in> set new" by simp
  then show ?thesis using n(2) by (auto simp: gmail_ids_def)
qed

lemma process_emails_distinct:
  "distinct (map e_gmail_id db) \<Longrightarrow>
     distinct (map e_gmail_id (process_emails parse now uid batch db))"
proof -
  assume d: "distinct (map e_gmail_id db)"
  obtain new where n: "process_emails parse now uid batch db = db @ new"
    "gmail_ids new \<inter> gmail_ids db = {}" "distinct (map e_gmail_id new)"
    using process_emails_append by blast
  then show ?thesis using d by (auto simp: gmail_ids_def)
qed

lemma process_emails_prefix: "prefix db (process_emails parse now uid batch db)"
  using process_emails_append [of parse now uid batch db] by (auto simp: prefix_def)

text \<open>
  C2, as the code has it. Reconciliation only appends: the records of the table stay as
  they are, in place. A message adds a record exactly when no record has its external id
  at that moment and the parser accepts its timestamp (a message whose processing raises
  is passed over). No added record has an external id that was in the table, distinct
  external ids stay distinct, the external ids afterwards are those of the table and of
  the batch's messages with an accepted timestamp, and a second run on the same batch
  changes nothing.
\<close>

theorem process_emails_insert_only:
  "prefix db (process_emails parse now uid batch db)
   \<and> ((process_email parse now uid g db \<noteq> db) = (g_gmail_id g \<notin> gmail_ids db \<and> parses parse g))
   \<and> (\<forall>e\<in>set (drop (length db) (process_emails parse now uid batch db)).
         e_gmail_id e \<notin> gmail_ids db)
   \<and> (distinct (map e_gmail_id db) \<longrightarrow>
         distinct (map e_gmail_id (process_emails parse now uid batch db)))
   \<and> gmail_ids (process_emails parse now uid batch db) =
         gmail_ids db \<union> g_gmail_id ` {g \<in> set batch. parses parse g}
   \<and> process_emails parse now' uid' batch (process_emails parse now uid batch db) =
         process_emails parse now uid batch db"
  by (simp add: process_emails_prefix process_email_changes_iff process_emails_new_ids
      process_emails_distinct process_emails_ids process_emails_idem)

theorem process_emails_insert_only_witness:
  "distinct (map e_gmail_id (process_emails fromisoformat 0 1 [sample_message ''A'' ''2024-01-15''] []))
   \<and> map e_gmail_id
        (process_emails fromisoformat 5 1
           [sample_message ''A'' ''2024-01-16'', sample_message ''B'' ''2024-01-15 10:30'']
           (process_emails fromisoformat 0 1 [sample_message ''A'' ''2024-01-15''] []))
      = [''A'', ''B'']
   \<and> map e_timestamp
        (process_emails fromisoformat 5 1
           [sample_message ''A'' ''2024-01-16'', sample_message ''B'' ''2024-01-15 10:30'']
           (process_emails fromisoformat 0 1 [sample_message ''A'' ''2024-01-15''] []))
      = [63840873600000000, 63840911400000000]"
proof -
  have d: "distinct (map e_gmail_id (process_emails fromisoformat 0 1 [sample_message ''A'' ''2024-01-15''] []))"
    by code_simp
  have m: "map (\<lambda>e. (e_gmail_id e, e_timestamp e))
        (process_emails fromisoformat 5 1
           [sample_message ''A'' ''2024-01-16'', sample_message ''B'' ''2024-01-15 10:30'']
           (process_emails fromisoformat 0 1 [sample_message ''A'' ''2024-01-15''] []))
      = [(''A'', 63840873600000000), (''B'', 63840911400000000)]"
    by code_simp
  have "map e_gmail_id
        (process_emails fromisoformat 5 1
           [sample_message ''A'' ''2024-01-16'', sample_message ''B'' ''2024-01-15 10:30'']
           (process_emails fromisoformat 0 1 [sample_message ''A'' ''2024-01-15''] []))
      = map fst [(''A'', 63840873600000000::int), (''B'', 63840911400000000)]"
    unfolding m [symmetric] by (simp add: comp_def)
  moreover have "map e_timestamp
        (process_emails fromisoformat 5 1
           [sample_message ''A'' ''2024-01-16'', sample_message ''B'' ''2024-01-15 10:30'']
           (process_emails fromisoformat 0 1 [sample_message ''A'' ''2024-01-15''] []))
      = map snd [(''A'', 63840873600000000::int), (''B'', 63840911400000000)]"
    unfolding m [symmetric] by (simp add: comp_def)
  ultimately show ?thesis
    using d process_emails_insert_only [of "process_emails fromisoformat 0 1 [sample_message ''A'' ''2024-01-15''] []"
      fromisoformat 5 1 "[sample_message ''A'' ''2024-01-16'', sample_message ''B'' ''2024-01-15 10:30'']"]
    by simp
qed

text \<open>
  The claim as it is worded fails: a message with the \<open>Date\<close> header that Gmail sends
  (RFC 2822, which \<open>fromisoformat\<close> rejects) is not in the table and is not inserted.
\<close>

theorem process_emails_unparsed_counterexample:
  "''B'' \<notin> gmail_ids []
   \<and> process_emails fromisoformat 0 1
        [sample_message ''B'' ''Mon, 15 Jan 2024 10:30:00 +0000''] [] = []"
  by (simp add: gmail_ids_def process_email_def sample_message_def replace_Z_def
      fromisoformat_def)

text \<open>
  C6, as the code has it. A successful \<open>sync_emails\<close> answers with the number of
  fetched messages, whatever the table holds, and hands the whole batch to the background
  task; the number of records the task inserts is at most that number.
\<close>

lemma process_email_length:
  "length (process_email parse now uid g db) \<le> Suc (length db)"
  by (simp add: process_email_def Let_def split: option.splits)

lemma process_emails_length:
  "length (process_emails parse now uid batch db) \<le> length db + length batch"
proof (induction batch arbitrary: db)
  case Nil
  show ?case by simp
next
  case (Cons g batch)
  have "length (process_emails parse now uid batch (process_email parse now uid g db))
        \<le> length (process_email parse now uid g db) + length batch"
    by (rule Cons.IH)
  then show ?case using process_email_length [of parse now uid g db] by simp
qed

theorem sync_emails_count:
  "sync_emails first_user fetched = Inr r \<Longrightarrow>
     fetched = Some (fst (sync_task r)) \<and> sync_count r = length (fst (sync_task r))
     \<and> inserted_count parse now r db \<le> sync_count r"
proof -
  assume a: "sync_emails first_user fetched = Inr r"
  then obtain batch u where b: "fetched = Some batch" "first_user = Some u"
    "r = \<lparr>sync_count = length batch, sync_task = (batch, u_id u)\<rparr>"
    by (auto simp: sync_emails_def split: option.splits if_splits)
  then show ?thesis
    using process_emails_length [of parse now "u_id u" batch db]
    by (simp add: inserted_count_def)
qed

theorem sync_emails_count_witness:
  "sync_emails (Some \<lparr>u_id = 1, u_gmail_token = Some ''token'', u_calendar_token = None\<rparr>)
       (Some [sample_message ''A'' ''2024-01-15''])
     = Inr \<lparr>sync_count = 1, sync_task = ([sample_message ''A'' ''2024-01-15''], 1)\<rparr>
   \<and> inserted_count fromisoformat 0
        \<lparr>sync_count = 1, sync_task = ([sample_message ''A'' ''2024-01-15''], 1)\<rparr> [] \<le> 1"
proof -
  have s: "sync_emails (Some \<lparr>u_id = 1, u_gmail_token = Some ''token'', u_calendar_token = None\<rparr>)
       (Some [sample_message ''A'' ''2024-01-15''])
     = Inr \<lparr>sync_count = 1, sync_task = ([sample_message ''A'' ''2024-01-15''], 1)\<rparr>"
    by (simp add: sync_emails_def)
  from sync_emails_count [OF s, of fromisoformat 0 "[]"] s show ?thesis by simp
qed

text \<open>
  The claim as it is worded fails: with message A in the table and the batch A, B, the
  answer counts 2 while the background task inserts one record.
\<close>

theorem sync_emails_count_counterexample:
  "sync_emails (Some \<lparr>u_id = 1, u_gmail_token = Some ''token'', u_calendar_token = None\<rparr>)
       (Some [sample_message ''A'' ''2024-01-15'', sample_message ''B'' ''2024-01-16''])
     = Inr \<lparr>sync_count = 2, sync_task = ([sample_message ''A'' ''2024-01-15'',
         sample_message ''B'' ''2024-01-16''], 1)\<rparr>
   \<and> inserted_count fromisoformat 9
        \<lparr>sync_count = 2, sync_task = ([sample_message ''A'' ''2024-01-15'',
           sample_message ''B'' ''2024-01-16''], 1)\<rparr>
        (process_emails fromisoformat 0 1 [sample_message ''A'' ''2024-01-15''] []) = 1"
proof -
  have i: "inserted_count fromisoformat 9
        \<lparr>sync_count = 2, sync_task = ([sample_message ''A'' ''2024-01-15'',
           sample_message ''B'' ''2024-01-16''], 1)\<rparr>
        (process_emails fromisoformat 0 1 [sample_message ''A'' ''2024-01-15''] []) = 1"
    by code_simp
  then show ?thesis by (simp add: sync_emails_def)
qed

section \<open>Properties of the generative-text service and of the summaries\<close>

lemma fallback_reply_cases:
  "fallback_reply tone =
     (if tone = ''friendly''
      then ''Hi! Thanks for reaching out. I'' @ [CHR 0x27] @
           ''ll take a look at this and respond shortly.''
      else if tone = ''brief'' then ''Thanks for the email. Will respond soon.''
      else ''Thank you for your email. I will review this and get back to you soon.'')"
  by (simp add: fallback_reply_def)

lemma generate_reply_call_fails:
  "OPENAI_API_KEY cfg \<noteq> [] \<Longrightarrow>
     generate_reply cfg Raises anthropic_call email_content tone = Some (fallback_reply tone)"
  "OPENAI_API_KEY cfg = [] \<Longrightarrow> ANTHROPIC_API_KEY cfg \<noteq> [] \<Longrightarrow>
     generate_reply cfg openai_call Raises email_content tone = Some (fallback_reply tone)"
  by (simp_all add: generate_reply_def)

lemma extract_call_fails:
  "OPENAI_API_KEY cfg \<noteq> [] \<Longrightarrow>
     extract_tasks_and_events cfg Raises email_content = empty_extraction"
  "OPENAI_API_KEY cfg \<noteq> [] \<Longrightarrow>
     extract_tasks_and_events cfg (Content txt None) email_content = empty_extraction"
  by (simp_all add: extract_tasks_and_events_def)

text \<open>
  C4. Without an OpenAI key \<open>extract_tasks_and_events\<close> returns Python's \<open>None\<close> and
  not the dictionary with two empty lists, whatever the email and whatever the other key.
\<close>

theorem extract_tasks_and_events_no_key:
  "extract_tasks_and_events \<lparr>OPENAI_API_KEY = [], ANTHROPIC_API_KEY = k\<rparr> openai_call email_content
     = JNull
   \<and> extract_tasks_and_events \<lparr>OPENAI_API_KEY = [], ANTHROPIC_API_KEY = k\<rparr> openai_call
       email_content \<noteq> empty_extraction"
  by (simp add: extract_tasks_and_events_def empty_extraction_def)

text \<open>
  C5. Without any API key \<open>generate_reply\<close> returns Python's \<open>None\<close>: no string and
  none of the fallback templates, whatever the email and the tone.
\<close>

theorem generate_reply_no_key:
  "generate_reply no_keys openai_call anthropic_call email_content tone = None
   \<and> generate_reply no_keys openai_call anthropic_call email_content tone
       \<noteq> Some (fallback_reply tone)"
  by (simp add: generate_reply_def no_keys_def)

text \<open>
  C3, as the code has it. A request for a summary of an email that has a stored summary is
  answered with "Summary already exists" and the key of that summary; it schedules no task
  and changes nothing.
\<close>

theorem generate_email_summary_existing:
  "find (\<lambda>e. e_id e = email_id) (emails db) = Some email \<Longrightarrow>
   find (\<lambda>s. s_email_id s = email_id) (summaries db) = Some existing_summary \<Longrightarrow>
     generate_email_summary email_id request db tasks
       = Inr (Summary_already_exists (s_id existing_summary), tasks)
     \<and> summary_step cfg (Trigger email_id request) (db, tasks) = (db, tasks)"
  by (simp add: generate_email_summary_def)

theorem generate_email_summary_existing_witness:
  "summaries_of 1 (create_email_summary no_keys failing_calls
       \<lparr>t_email_id = 1, t_model = ''openai'', t_include_response = True,
        t_response_tone = ''professional''\<rparr> sample_db)
     = [\<lparr>s_id = 1, s_email_id = 1, s_suggested_response = None,
         s_response_tone = ''professional'', s_model_used = ''openai''\<rparr>]
   \<and> generate_email_summary 1 sample_request
       (create_email_summary no_keys failing_calls
          \<lparr>t_email_id = 1, t_model = ''openai'', t_include_response = True,
           t_response_tone = ''professional''\<rparr> sample_db) []
     = Inr (Summary_already_exists 1, [])"
proof -
  have c: "create_email_summary no_keys failing_calls
       \<lparr>t_email_id = 1, t_model = ''openai'', t_include_response = True,
        t_response_tone = ''professional''\<rparr> sample_db
     = sample_db\<lparr>summaries := [\<lparr>s_id = 1, s_email_id = 1, s_suggested_response = None,
         s_response_tone = ''professional'', s_model_used = ''openai''\<rparr>]\<rparr>"
    by (simp add: create_email_summary_def sample_db_def sample_email_def no_keys_def
        failing_calls_def summarize_email_def fallback_summary_def generate_reply_def
        next_id_def)
  have e: "find (\<lambda>e. e_id e = 1) (emails (sample_db\<lparr>summaries :=
       [\<lparr>s_id = 1, s_email_id = 1, s_suggested_response = None,
         s_response_tone = ''professional'', s_model_used = ''openai''\<rparr>]\<rparr>)) = Some sample_email"
    by (simp add: sample_db_def sample_email_def)
  have f: "find (\<lambda>s. s_email_id s = 1) (summaries (sample_db\<lparr>summaries :=
       [\<lparr>s_id = 1, s_email_id = 1, s_suggested_response = None,
         s_response_tone = ''professional'', s_model_used = ''openai''\<rparr>]\<rparr>))
     = Some \<lparr>s_id = 1, s_email_id = 1, s_suggested_response = None,
         s_response_tone = ''professional'', s_model_used = ''openai''\<rparr>"
    by simp
  from generate_email_summary_existing [OF e f, of sample_request "[]" no_keys] c
  show ?thesis by (simp add: summaries_of_def)
qed

text \<open>
  The claim as it is worded fails: nothing enforces one summary for an email. Two
  requests that arrive before the task of the first has run both schedule a task, and
  each task stores a summary for the same email.
\<close>

theorem two_summaries_counterexample:
  "map s_email_id (summaries_of 1 (fst (fold (summary_step no_keys)
      [Trigger 1 sample_request, Trigger 1 sample_request,
       Run_task failing_calls, Run_task failing_calls] (sample_db, [])))) = [1, 1]"
  by (simp add: generate_email_summary_def create_email_summary_def sample_db_def
      sample_email_def sample_request_def no_keys_def failing_calls_def summarize_email_def
      fallback_summary_def generate_reply_def next_id_def summaries_of_def)

section \<open>Properties of the extraction of reminders and events\<close>















section \<open>Properties of the operations on reminders\<close>

lemma fold_max_ge_init: "a \<le> fold max xs (a::nat)"
proof (induction xs arbitrary: a)
  case Nil
  show ?case by simp
next
  case (Cons y ys)
  have "max y a \<le> fold max ys (max y a)" by (rule Cons.IH)
  then show ?case by simp
qed

lemma fold_max_ge_mem: "x \<in> set xs \<Longrightarrow> x \<le> fold max xs (a::nat)"
proof (induction xs arbitrary: a)
  case Nil
  then show ?case by simp
next
  case (Cons y ys)
  show ?case
  proof (cases "x = y")
    case True
    have "max y a \<le> fold max ys (max y a)" by (rule fold_max_ge_init)
    then show ?thesis using True by simp
  next
    case False
    then have "x \<in> set ys" using Cons.prems by simp
    then have "x \<le> fold max ys (max y a)" by (rule Cons.IH)
    then show ?thesis by simp
  qed
qed

lemma next_id_fresh: "k \<in> set ids \<Longrightarrow> k < next_id ids"
  using fold_max_ge_mem [of k ids 0] by (simp add: next_id_def)

lemma update_first_ids:
  "(\<And>r. r_id (f r) = r_id r) \<Longrightarrow> map r_id (update_first P f rs) = map r_id rs"
  by (induction rs) auto

lemma update_first_set:
  "r \<in> set (update_first P f rs) \<Longrightarrow> r \<in> set rs \<or> (\<exists>x\<in>set rs. P x \<and> r = f x)"
  by (induction rs) (auto split: if_splits)

lemma kept_snoozed_update:
  assumes "kept_snoozed rid rs" and "\<And>r. r_id (f r) = r_id r"
    and "\<And>r. r_is_snoozed r \<Longrightarrow> r_is_snoozed (f r)"
  shows "kept_snoozed rid (update_first P f rs)"
proof -
  have "r_id ` set (update_first P f rs) = r_id ` set rs"
    using update_first_ids [of f P rs] assms(2) by (metis set_map)
  moreover have "\<forall>r\<in>set (update_first P f rs). r_id r = rid \<longrightarrow> r_is_snoozed r"
  proof (intro ballI impI)
    fix r assume r: "r \<in> set (update_first P f rs)" "r_id r = rid"
    from update_first_set [OF r(1)] show "r_is_snoozed r"
    proof
      assume "r \<in> set rs"
      then show ?thesis using assms(1) r(2) by (simp add: kept_snoozed_def)
    next
      assume "\<exists>x\<in>set rs. P x \<and> r = f x"
      then obtain x where x: "x \<in> set rs" "r = f x" by blast
      then have "r_id x = rid" using r(2) assms(2) by simp
      then have "r_is_snoozed x" using assms(1) x(1) by (simp add: kept_snoozed_def)
      then show ?thesis using x(2) assms(3) by simp
    qed
  qed
  ultimately show ?thesis using assms(1) by (simp add: kept_snoozed_def)
qed

lemma delete_first_set: "set (delete_first P rs) \<subseteq> set rs"
  by (induction rs) auto

lemma delete_first_keeps: "r \<in> set rs \<Longrightarrow> \<not> P r \<Longrightarrow> r \<in> set (delete_first P rs)"
  by (induction rs) auto

lemma kept_snoozed_delete:
  assumes "kept_snoozed rid rs" and "k \<noteq> rid"
  shows "kept_snoozed rid (delete_first (\<lambda>r. r_id r = k) rs)"
proof -
  obtain r where r: "r \<in> set rs" "r_id r = rid"
    using assms(1) by (auto simp: kept_snoozed_def)
  then have "r \<in> set (delete_first (\<lambda>r. r_id r = k) rs)"
    using assms(2) by (intro delete_first_keeps) auto
  then have "rid \<in> r_id ` set (delete_first (\<lambda>r. r_id r = k) rs)"
    using r(2) by force
  moreover have "\<forall>x\<in>set (delete_first (\<lambda>r. r_id r = k) rs). r_id x = rid \<longrightarrow> r_is_snoozed x"
    using assms(1) delete_first_set [of "\<lambda>r. r_id r = k" rs] by (auto simp: kept_snoozed_def)
  ultimately show ?thesis by (simp add: kept_snoozed_def)
qed

lemma kept_snoozed_append:
  assumes "kept_snoozed rid rs" and "r_id new = next_id (map r_id rs)"
  shows "kept_snoozed rid (rs @ [new])"
proof -
  have "rid \<in> set (map r_id rs)" using assms(1) by (simp add: kept_snoozed_def)
  then have "rid < next_id (map r_id rs)" by (rule next_id_fresh)
  then have "r_id new \<noteq> rid" using assms(2) by simp
  then show ?thesis using assms(1) by (auto simp: kept_snoozed_def)
qed

lemma kept_snoozed_insert:
  assumes "kept_snoozed rid rs" and "\<forall>row\<in>set rows. \<forall>k. r_id (row k) = k"
  shows "kept_snoozed rid (insert_reminders rows rs)"
  using assms
proof (induction rows arbitrary: rs)
  case Nil
  then show ?case by simp
next
  case (Cons row rows)
  have "kept_snoozed rid (rs @ [row (next_id (map r_id rs))])"
    using Cons.prems by (intro kept_snoozed_append) auto
  then show ?case using Cons.IH Cons.prems(2) by simp
qed

lemma task_step_keyed:
  "task_step driver parse now uid eid t = Inr row \<Longrightarrow> r_id (fst row k) = k"
  by (auto simp: task_step_def sum_bind_def raise_none_def split: sum.splits option.splits if_splits)

lemma task_rows_keyed:
  "row \<in> set (task_rows driver parse now uid eid items) \<Longrightarrow> r_id (fst row k) = k"
proof -
  assume "row \<in> set (task_rows driver parse now uid eid items)"
  then obtain x where "task_step driver parse now uid eid x = Inr row"
    by (auto simp: task_rows_def split: sum.splits)
  then show ?thesis by (rule task_step_keyed)
qed

lemma event_step_keyed:
  "row \<in> set (snd (event_step parse uid eid ev)) \<Longrightarrow> r_id (fst row k) = k"
  by (auto simp: event_step_def Let_def split: sum.splits option.splits if_splits prod.splits)

lemma persist_extraction_reminders:
  "reminders (persist_extraction driver parse now email eid extracted db) = reminders db
   \<or> (\<exists>rows. (\<forall>row\<in>set rows. \<forall>k. r_id (row k) = k)
        \<and> reminders (persist_extraction driver parse now email eid extracted db)
            = insert_reminders rows (reminders db))"
proof (cases "sum_bind (py_get extracted ''tasks'' (JArr [])) (\<lambda>tasks.
        sum_bind (py_iter tasks) (\<lambda>task_items.
        sum_bind (py_get extracted ''events'' (JArr [])) (\<lambda>events.
        sum_bind (py_iter events) (\<lambda>event_items.
          Inr (task_items, event_items)))))")
  case (Inl err)
  then show ?thesis by (simp add: persist_extraction_def)
next
  case (Inr items)
  obtain ts es where i: "items = (ts, es)" by (cases items)
  let ?pending = "task_rows driver parse now (e_user_id email) eid ts @
      concat (map snd (map (event_step parse (e_user_id email) eid) es))"
  let ?events = "concat (map fst (map (event_step parse (e_user_id email) eid) es))"
  have k: "\<forall>row\<in>set (map fst ?pending). \<forall>k. r_id (row k) = k"
    using task_rows_keyed event_step_keyed by fastforce
  have "persist_extraction driver parse now email eid extracted db = db
      \<or> persist_extraction driver parse now email eid extracted db
          = db\<lparr>reminders := insert_reminders (map fst ?pending) (reminders db),
               calendar_events := insert_events (map fst ?events) (calendar_events db)\<rparr>"
    using Inr i by (auto simp: persist_extraction_def Let_def)
  then show ?thesis
  proof
    assume "persist_extraction driver parse now email eid extracted db = db"
    then show ?thesis by simp
  next
    assume "persist_extraction driver parse now email eid extracted db
          = db\<lparr>reminders := insert_reminders (map fst ?pending) (reminders db),
               calendar_events := insert_events (map fst ?events) (calendar_events db)\<rparr>"
    then have "reminders (persist_extraction driver parse now email eid extracted db)
        = insert_reminders (map fst ?pending) (reminders db)"
      by simp
    then show ?thesis using k by blast
  qed
qed

lemma kept_snoozed_step:
  assumes "kept_snoozed rid (reminders db)" and "op \<noteq> Delete rid"
  shows "kept_snoozed rid (reminders (reminder_step driver parse op db))"
proof (cases op)
  case (Create request)
  then show ?thesis
    using assms(1)
    by (auto simp: keep_def create_reminder_def intro!: kept_snoozed_append split: option.splits)
next
  case (Update k request now)
  have "kept_snoozed rid (update_first (\<lambda>r. r_id r = k) (apply_update request now) (reminders db))"
    using assms(1)
    by (rule kept_snoozed_update) (auto simp: apply_update_def Let_def split: option.splits)
  then show ?thesis
    using Update assms(1) by (auto simp: keep_def update_reminder_def split: option.splits)
next
  case (Delete k)
  then have "k \<noteq> rid" using assms(2) by simp
  then show ?thesis
    using Delete assms(1) kept_snoozed_delete [of rid "reminders db" k]
    by (auto simp: keep_def delete_reminder_def split: option.splits)
next
  case (Complete k now)
  have "kept_snoozed rid (update_first (\<lambda>r. r_id r = k)
      (\<lambda>r. r\<lparr>r_is_completed := True, r_completed_at := Some now\<rparr>) (reminders db))"
    using assms(1) by (rule kept_snoozed_update) auto
  then show ?thesis
    using Complete assms(1) by (auto simp: keep_def complete_reminder_def split: option.splits)
next
  case (Snooze k until)
  have "kept_snoozed rid (update_first (\<lambda>r. r_id r = k)
      (\<lambda>r. r\<lparr>r_is_snoozed := True, r_snooze_until := Some until\<rparr>) (reminders db))"
    using assms(1) by (rule kept_snoozed_update) auto
  then show ?thesis
    using Snooze assms(1) by (auto simp: keep_def snooze_reminder_def split: option.splits)
next
  case (Extract now cfg call eid)
  show ?thesis
  proof (cases "find (\<lambda>e. e_id e = eid) (emails db)")
    case None
    then show ?thesis using Extract assms(1) by (simp add: process_email_for_reminders_def)
  next
    case (Some email)
    then have "reminder_step driver parse op db = persist_extraction driver parse now email eid
        (extract_tasks_and_events cfg call
           (''Subject: '' @ e_subject email @ [CHR 0x0A, CHR 0x0A] @ e_body email)) db"
      using Extract by (simp add: process_email_for_reminders_def Let_def)
    then show ?thesis
      using persist_extraction_reminders [of driver parse now email eid _ db] assms(1)
        kept_snoozed_insert [of rid "reminders db"]
      by metis
  qed
qed

lemma kept_snoozed_run:
  "kept_snoozed rid (reminders db) \<Longrightarrow> Delete rid \<notin> set ops \<Longrightarrow>
     kept_snoozed rid (reminders (run_ops driver parse ops db))"
proof (induction ops arbitrary: db)
  case Nil
  then show ?case by (simp add: run_ops_def)
next
  case (Cons op ops)
  have "kept_snoozed rid (reminders (reminder_step driver parse op db))"
    using Cons.prems by (intro kept_snoozed_step) auto
  then have "kept_snoozed rid (reminders (run_ops driver parse ops (reminder_step driver parse op db)))"
    using Cons.IH Cons.prems(2) by simp
  then show ?case by (simp add: run_ops_def)
qed

lemma update_first_distinct:
  assumes "distinct (map r_id rs)" and "r \<in> set (update_first (\<lambda>r. r_id r = k) f rs)"
    and "r_id r = k" and "\<And>x. r_id (f x) = r_id x"
  shows "\<exists>x\<in>set rs. r = f x"
  using assms(1,2,3)
proof (induction rs)
  case Nil
  then show ?case by simp
next
  case (Cons y ys)
  show ?case
  proof (cases "r_id y = k")
    case True
    then have "r = f y \<or> r \<in> set ys" using Cons.prems(2) by simp
    moreover have "r \<notin> set ys" using Cons.prems(1,3) True by force
    ultimately show ?thesis by simp
  next
    case False
    then have "r = y \<or> r \<in> set (update_first (\<lambda>r. r_id r = k) f ys)"
      using Cons.prems(2) by simp
    then have "r \<in> set (update_first (\<lambda>r. r_id r = k) f ys)"
      using False Cons.prems(3) by auto
    then show ?thesis using Cons.IH Cons.prems(1,3) by auto
  qed
qed

lemma snooze_reminder_kept:
  assumes "distinct (map r_id (reminders db))" and "snooze_reminder rid until db = Inr db'"
  shows "kept_snoozed rid (reminders db')"
proof -
  let ?f = "\<lambda>r. r\<lparr>r_is_snoozed := True, r_snooze_until := Some until\<rparr>"
  obtain found where f: "find (\<lambda>r. r_id r = rid) (reminders db) = Some found"
    and d: "db' = db\<lparr>reminders := update_first (\<lambda>r. r_id r = rid) ?f (reminders db)\<rparr>"
    using assms(2) by (auto simp: snooze_reminder_def split: option.splits)
  have "rid \<in> r_id ` set (reminders db)"
    using f by (auto simp: find_Some_iff)
  moreover have "map r_id (update_first (\<lambda>r. r_id r = rid) ?f (reminders db))
      = map r_id (reminders db)"
    by (rule update_first_ids) simp
  ultimately have p: "rid \<in> r_id ` set (reminders db')"
    using d by (metis database.select_convs(3) database.surjective database.update_convs(3) set_map)
  have "\<forall>r\<in>set (reminders db'). r_id r = rid \<longrightarrow> r_is_snoozed r"
  proof (intro ballI impI)
    fix r assume "r \<in> set (reminders db')" "r_id r = rid"
    then have "\<exists>x\<in>set (reminders db). r = ?f x"
      using update_first_distinct [OF assms(1), of r rid ?f] d by simp
    then show "r_is_snoozed r" by auto
  qed
  then show ?thesis using p by (simp add: kept_snoozed_def)
qed

lemma kept_snoozed_overdue:
  "kept_snoozed rid (reminders db) \<Longrightarrow> rid \<notin> r_id ` set (get_overdue_reminders now db)"
  by (auto simp: kept_snoozed_def get_overdue_reminders_def)

lemma kept_snoozed_upcoming:
  "kept_snoozed rid (reminders db) \<Longrightarrow> get_upcoming_reminders now hours db = Inr rs \<Longrightarrow>
     rid \<notin> r_id ` set rs"
  by (auto simp: kept_snoozed_def get_upcoming_reminders_def split: option.splits)

text \<open>
  C10. Let the keys of the reminders be distinct and let a reminder be snoozed. After any
  sequence of operations on the store that does not delete that reminder, the reminder is
  in the table with its snoozed flag set, and it is in the result of neither the overdue
  query nor the upcoming query, at any time of the query and whatever the time it was
  snoozed until: no operation clears the flag and both queries test the flag alone.
\<close>

theorem snoozed_reminder_excluded:
  assumes "distinct (map r_id (reminders db))"
    and "snooze_reminder rid snooze_until db = Inr db1"
    and "Delete rid \<notin> set ops"
  shows "kept_snoozed rid (reminders (run_ops driver parse ops db1))
    \<and> rid \<notin> r_id ` set (get_overdue_reminders now (run_ops driver parse ops db1))
    \<and> (\<forall>rs. get_upcoming_reminders now hours (run_ops driver parse ops db1) = Inr rs
          \<longrightarrow> rid \<notin> r_id ` set rs)"
proof -
  have "kept_snoozed rid (reminders db1)"
    using assms(1,2) by (rule snooze_reminder_kept)
  then have k: "kept_snoozed rid (reminders (run_ops driver parse ops db1))"
    using assms(3) by (rule kept_snoozed_run)
  then show ?thesis
    using kept_snoozed_overdue [OF k] kept_snoozed_upcoming [OF k] by blast
qed

theorem snoozed_reminder_excluded_witness:
  "map r_id (get_overdue_reminders 63850000000000000 sample_reminder_db) = [1]
   \<and> snooze_reminder 1 63840900000000000 sample_reminder_db
       = Inr (sample_reminder_db\<lparr>reminders :=
                map (\<lambda>r. r\<lparr>r_is_snoozed := True, r_snooze_until := Some 63840900000000000\<rparr>)
                  (reminders sample_reminder_db)\<rparr>)
   \<and> map r_id (reminders (run_ops text_driver fromisoformat sample_ops
        (sample_reminder_db\<lparr>reminders :=
                map (\<lambda>r. r\<lparr>r_is_snoozed := True, r_snooze_until := Some 63840900000000000\<rparr>)
                  (reminders sample_reminder_db)\<rparr>))) = [1]
   \<and> 1 \<notin> r_id ` set (get_overdue_reminders 63850000000000000
        (run_ops text_driver fromisoformat sample_ops
          (sample_reminder_db\<lparr>reminders :=
                map (\<lambda>r. r\<lparr>r_is_snoozed := True, r_snooze_until := Some 63840900000000000\<rparr>)
                  (reminders sample_reminder_db)\<rparr>)))"
proof -
  let ?db1 = "sample_reminder_db\<lparr>reminders :=
                map (\<lambda>r. r\<lparr>r_is_snoozed := True, r_snooze_until := Some 63840900000000000\<rparr>)
                  (reminders sample_reminder_db)\<rparr>"
  have o: "map r_id (get_overdue_reminders 63850000000000000 sample_reminder_db) = [1]"
    by (simp add: get_overdue_reminders_def sample_reminder_db_def)
  have d: "distinct (map r_id (reminders sample_reminder_db))"
    by (simp add: sample_reminder_db_def)
  have s: "snooze_reminder 1 63840900000000000 sample_reminder_db = Inr ?db1"
    by (simp add: snooze_reminder_def sample_reminder_db_def)
  have n: "Delete 1 \<notin> set sample_ops"
    by (simp add: sample_ops_def)
  have i: "map r_id (reminders (run_ops text_driver fromisoformat sample_ops ?db1)) = [1]"
    by code_simp
  from snoozed_reminder_excluded [OF d s n, of text_driver fromisoformat 63850000000000000] o s i
  show ?thesis by simp
qed

section \<open>Properties of the free-time scan\<close>

lemma conflict_overlaps:
  "conflict (sl_start s) (sl_end s) busy = list_ex (overlaps s) busy"
  by (induction busy) (auto simp: overlaps_def)



lemma slots_from_done: "day_end < s + dur * us_minute \<Longrightarrow> slots_from s dur day_end = []"
proof -
  assume "day_end < s + dur * us_minute"
  then have "day_end - dur * us_minute - s < 0" by simp
  then have "(day_end - dur * us_minute - s) div us_hour < 0"
    by (simp add: us_hour_def div_neg_pos_less0)
  then show ?thesis by (simp add: slots_from_def)
qed

lemma slots_from_step:
  assumes "s + dur * us_minute \<le> day_end"
  shows "slots_from s dur day_end =
     \<lparr>sl_start = s, sl_end = s + dur * us_minute\<rparr> # slots_from (s + us_hour) dur day_end"
proof -
  let ?x = "day_end - dur * us_minute - s"
  have x: "0 \<le> ?x" using assms by simp
  have "(?x - us_hour) div us_hour = ?x div us_hour - 1"
    by (simp add: us_hour_def)
  then have e: "(day_end - dur * us_minute - (s + us_hour)) div us_hour = ?x div us_hour - 1"
    by (simp add: algebra_simps)
  have p: "0 \<le> ?x div us_hour" using x by (simp add: us_hour_def pos_imp_zdiv_nonneg_iff)
  then have n: "nat (?x div us_hour + 1) = Suc (nat (?x div us_hour))" by simp
  have m: "nat (?x div us_hour - 1 + 1) = nat (?x div us_hour)" by simp
  show ?thesis
    unfolding slots_from_def e n m
    by (simp add: upt_conv_Cons map_Suc_upt [symmetric] algebra_simps del: upt_Suc)
qed

lemma slot_loop_Inr:
  "slot_loop s dur day_end busy = Inr slots \<Longrightarrow>
     slots = filter (\<lambda>sl. \<not> list_ex (overlaps sl) busy) (slots_from s dur day_end)"
proof (induction s dur day_end busy arbitrary: slots rule: slot_loop.induct)
  case (1 s dur day_end busy)
  from "1.prems" obtain d where d: "timedelta_minutes dur = Some d"
    by (subst (asm) slot_loop.simps) (auto split: option.splits)
  then have dv: "d = dur * us_minute"
    by (auto simp: timedelta_minutes_def td_range_def split: if_splits)
  from "1.prems" d obtain e where e: "dt_add s d = Some e"
    by (subst (asm) slot_loop.simps) (auto split: option.splits)
  then have ev: "e = s + dur * us_minute" using dv by (auto simp: dt_add_def split: if_splits)
  show ?case
  proof (cases "e \<le> day_end")
    case False
    then have "slots = []"
      using "1.prems" d e by (subst (asm) slot_loop.simps) simp
    then show ?thesis using False ev by (simp add: slots_from_done)
  next
    case True
    from "1.prems" d e True obtain nx where nx: "dt_add s us_hour = Some nx"
      by (subst (asm) slot_loop.simps) (auto split: option.splits)
    then have nv: "nx = s + us_hour" by (auto simp: dt_add_def split: if_splits)
    from "1.prems" d e True nx obtain later where l: "slot_loop nx dur day_end busy = Inr later"
      and sl: "slots = (if conflict s e busy then later
                        else \<lparr>sl_start = s, sl_end = e\<rparr> # later)"
      by (subst (asm) slot_loop.simps) (auto split: sum.splits)
    have "later = filter (\<lambda>sl. \<not> list_ex (overlaps sl) busy) (slots_from nx dur day_end)"
      using "1.IH" [OF d e True nx l] .
    moreover have "conflict s e busy = list_ex (overlaps \<lparr>sl_start = s, sl_end = e\<rparr>) busy"
      using conflict_overlaps [of "\<lparr>sl_start = s, sl_end = e\<rparr>" busy] by simp
    ultimately show ?thesis
      using sl True ev nv slots_from_step [of s dur day_end] by simp
  qed
qed


lemma day_candidates_slots_from:
  "day_candidates d dur = slots_from (combine_hour d 9) dur (combine_hour d 17)"
proof -
  have h: "combine_hour d 17 - dur * us_minute - combine_hour d 9 = 8 * us_hour - dur * us_minute"
    by (simp add: combine_hour_def)
  show ?thesis unfolding day_candidates_def slots_from_def h by (rule refl)
qed

lemma candidates_Suc:
  "candidates d0 (Suc n) dur =
     (if weekday d0 < 5 then day_candidates d0 dur else []) @ candidates (d0 + 1) n dur"
proof -
  have "[0..<Suc n] = 0 # map Suc [0..<n]"
    by (simp add: upt_conv_Cons map_Suc_upt del: upt_Suc)
  then show ?thesis
    by (simp add: candidates_def comp_def algebra_simps del: upt_Suc cong: if_cong)
qed

lemma scan_days_Inr:
  "scan_days days d0 dur busy = Inr slots \<Longrightarrow>
     slots = filter (\<lambda>sl. \<not> list_ex (overlaps sl) busy) (candidates d0 days dur)"
proof (induction days arbitrary: d0 slots)
  case 0
  then show ?case by (simp add: candidates_def)
next
  case (Suc days)
  from Suc.prems obtain day_slots next_date later where
    a: "(if weekday d0 < 5
         then slot_loop (combine_hour d0 9) dur (combine_hour d0 17) busy else Inr [])
        = Inr day_slots"
    and b: "date_add d0 1 = Some next_date"
    and c: "scan_days days next_date dur busy = Inr later"
    and s: "slots = day_slots @ later"
    by (auto simp: sum_bind_def raise_none_def split: sum.splits option.splits)
  have n: "next_date = d0 + 1" using b by (auto simp: date_add_def split: if_splits)
  have "day_slots = filter (\<lambda>sl. \<not> list_ex (overlaps sl) busy)
      (if weekday d0 < 5 then day_candidates d0 dur else [])"
    using a slot_loop_Inr [of "combine_hour d0 9" dur "combine_hour d0 17" busy day_slots]
    by (auto simp: day_candidates_slots_from split: if_splits)
  moreover have "later = filter (\<lambda>sl. \<not> list_ex (overlaps sl) busy) (candidates (d0 + 1) days dur)"
    using Suc.IH [OF c] n by simp
  ultimately show ?case using s by (simp add: candidates_Suc)
qed

lemma free_time_scan_Inr:
  "free_time_scan now dur days_ahead busy = Inr slots \<Longrightarrow>
     slots = take 10 (filter (\<lambda>sl. \<not> list_ex (overlaps sl) busy)
                        (candidates (date_of now) (nat days_ahead) dur))"
  using scan_days_Inr [of "nat days_ahead" "date_of now" dur busy]
  by (auto simp: free_time_scan_def sum_bind_def split: sum.splits)

lemma slot_loop_total:
  "timedelta_minutes dur = Some d \<Longrightarrow> 0 \<le> dur \<Longrightarrow> 0 \<le> s \<Longrightarrow> s \<le> day_end + us_hour \<Longrightarrow>
   day_end + us_hour + dur * us_minute \<le> dt_max \<Longrightarrow>
     \<exists>slots. slot_loop s dur day_end busy = Inr slots"
proof (induction s dur day_end busy rule: slot_loop.induct)
  case (1 s dur day_end busy)
  have dv: "d = dur * us_minute"
    using "1.prems"(1) by (auto simp: timedelta_minutes_def td_range_def split: if_splits)
  have dn: "0 \<le> d" using dv "1.prems"(2) by (simp add: us_minute_def)
  have e: "dt_add s d = Some (s + d)"
    using "1.prems" dv dn by (simp add: dt_add_def)
  show ?case
  proof (cases "s + d \<le> day_end")
    case False
    then show ?thesis
      using "1.prems"(1) e by (subst slot_loop.simps) simp
  next
    case True
    have h: "0 \<le> us_hour" by (simp add: us_hour_def)
    have nx: "dt_add s us_hour = Some (s + us_hour)"
      using "1.prems" True dn dv h by (simp add: dt_add_def)
    have "s + us_hour \<le> day_end + us_hour" using True dn by simp
    moreover have "0 \<le> s + us_hour" using "1.prems"(3) h by simp
    ultimately obtain later where "slot_loop (s + us_hour) dur day_end busy = Inr later"
      using "1.IH" [OF "1.prems"(1) e True nx] "1.prems" by blast
    then show ?thesis
      using "1.prems"(1) e True nx by (subst slot_loop.simps) simp
  qed
qed

lemma scan_days_total:
  "0 \<le> d0 \<Longrightarrow> 0 \<le> dur \<Longrightarrow> (d0 + int days + 1) * us_day + dur * us_minute \<le> dt_max \<Longrightarrow>
     \<exists>slots. scan_days days d0 dur busy = Inr slots"
proof (induction days arbitrary: d0)
  case 0
  show ?case by simp
next
  case (Suc days)
  have r: "(d0 + 2) * us_day + dur * us_minute \<le> dt_max"
    using Suc.prems by (simp add: us_day_def us_minute_def dt_max_def)
  have td: "timedelta_minutes dur = Some (dur * us_minute)"
    using Suc.prems(1,2) r
    by (simp add: timedelta_minutes_def td_range_def us_minute_def us_day_def dt_max_def)
  have "\<exists>slots. slot_loop (combine_hour d0 9) dur (combine_hour d0 17) busy = Inr slots"
    using td Suc.prems(1,2) r
    by (intro slot_loop_total [of dur "dur * us_minute"])
      (simp_all add: combine_hour_def us_hour_def us_day_def us_minute_def)
  then obtain day_slots where a: "(if weekday d0 < 5
         then slot_loop (combine_hour d0 9) dur (combine_hour d0 17) busy else Inr [])
        = Inr day_slots"
    by (cases "weekday d0 < 5") auto
  have b: "date_add d0 1 = Some (d0 + 1)"
    using Suc.prems(1,2) r
    by (simp add: date_add_def date_max_def us_day_def us_minute_def dt_max_def)
  have "\<exists>slots. scan_days days (d0 + 1) dur busy = Inr slots"
    using Suc.prems by (intro Suc.IH) (simp_all add: algebra_simps)
  then obtain later where c: "scan_days days (d0 + 1) dur busy = Inr later" by blast
  show ?case using a b c by (simp add: sum_bind_def raise_none_def)
qed

lemma free_time_scan_total:
  assumes "0 \<le> now" and "0 \<le> dur"
    and "(date_of now + days_ahead + 1) * us_day + dur * us_minute \<le> dt_max"
  shows "\<exists>slots. free_time_scan now dur days_ahead busy = Inr slots"
proof -
  have d: "0 \<le> date_of now" using assms(1) by (simp add: date_of_def us_day_def pos_imp_zdiv_nonneg_iff)
  show ?thesis
  proof (cases "0 \<le> days_ahead")
    case True
    then have "(date_of now + int (nat days_ahead) + 1) * us_day + dur * us_minute \<le> dt_max"
      using assms(3) by simp
    then obtain slots where "scan_days (nat days_ahead) (date_of now) dur busy = Inr slots"
      using scan_days_total [OF d assms(2)] by blast
    then show ?thesis by (simp add: free_time_scan_def sum_bind_def)
  next
    case False
    then show ?thesis by (simp add: free_time_scan_def sum_bind_def)
  qed
qed




lemma day_candidates_mem:
  "(s \<in> set (day_candidates d dur)) =
     (\<exists>k. s = \<lparr>sl_start = combine_hour d 9 + int k * us_hour,
                 sl_end = combine_hour d 9 + int k * us_hour + dur * us_minute\<rparr>
          \<and> combine_hour d 9 + int k * us_hour + dur * us_minute \<le> combine_hour d 17)"
proof -
  have "\<And>k. (k < nat ((8 * us_hour - dur * us_minute) div us_hour + 1)) =
      (combine_hour d 9 + int k * us_hour + dur * us_minute \<le> combine_hour d 17)"
    unfolding combine_hour_def us_hour_def us_minute_def by arith
  then show ?thesis by (auto simp: day_candidates_def)
qed

lemma candidates_mem:
  "(s \<in> set (candidates d0 n dur)) =
     (\<exists>i<n. weekday (d0 + int i) < 5 \<and> s \<in> set (day_candidates (d0 + int i) dur))"
  by (auto simp: candidates_def split: if_splits)

lemma candidates_shape:
  "s \<in> set (candidates d0 n dur) \<Longrightarrow>
     \<exists>i<n. \<exists>k. weekday (d0 + int i) < 5
       \<and> sl_start s = combine_hour (d0 + int i) 9 + int k * us_hour
       \<and> sl_end s = sl_start s + dur * us_minute
       \<and> sl_end s \<le> combine_hour (d0 + int i) 17"
  unfolding candidates_mem day_candidates_mem by auto

lemma candidates_complete:
  "i < n \<Longrightarrow> weekday (d0 + int i) < 5 \<Longrightarrow>
   combine_hour (d0 + int i) 9 + int k * us_hour + dur * us_minute \<le> combine_hour (d0 + int i) 17
   \<Longrightarrow> \<lparr>sl_start = combine_hour (d0 + int i) 9 + int k * us_hour,
        sl_end = combine_hour (d0 + int i) 9 + int k * us_hour + dur * us_minute\<rparr>
       \<in> set (candidates d0 n dur)"
  unfolding candidates_mem day_candidates_mem by auto

lemma day_candidates_60:
  "day_candidates d 60 = map (hour_slot d) [9, 10, 11, 12, 13, 14, 15, 16]"
proof -
  have n: "nat ((8 * us_hour - 60 * us_minute) div us_hour + 1) = 8"
    by (simp add: us_hour_def us_minute_def)
  have u: "[0..<8] = [0, 1, 2, 3, 4, 5, 6, 7::nat]"
    by (simp add: upt_rec)
  show ?thesis
    unfolding day_candidates_def n u
    by (simp add: hour_slot_def combine_hour_def us_hour_def us_minute_def)
qed

lemma free_time_scan_example:
  assumes "0 \<le> now" and "(date_of now + 2) * us_day + 60 * us_minute \<le> dt_max"
    and "weekday (date_of now) < 5"
  shows "free_time_scan now 60 1
      [busy_interval (combine_hour (date_of now) 10) (combine_hour (date_of now) 11)]
    = Inr (map (hour_slot (date_of now)) [9, 11, 12, 13, 14, 15, 16])"
proof -
  let ?d = "date_of now"
  let ?busy = "[busy_interval (combine_hour ?d 10) (combine_hour ?d 11)]"
  have r: "(date_of now + 1 + 1) * us_day + 60 * us_minute \<le> dt_max"
    using assms(2) by (simp add: algebra_simps)
  have "\<exists>slots. free_time_scan now 60 1 ?busy = Inr slots"
    by (rule free_time_scan_total [OF assms(1) _ r]) simp
  then obtain slots where s: "free_time_scan now 60 1 ?busy = Inr slots" by blast
  have c: "candidates ?d (nat 1) 60 = map (hour_slot ?d) [9, 10, 11, 12, 13, 14, 15, 16]"
    using assms(3) by (simp add: candidates_def day_candidates_60)
  have "slots = take 10 (filter (\<lambda>sl. \<not> list_ex (overlaps sl) ?busy)
      (map (hour_slot ?d) [9, 10, 11, 12, 13, 14, 15, 16]))"
    using free_time_scan_Inr [OF s] c by simp
  also have "\<dots> = map (hour_slot ?d) [9, 11, 12, 13, 14, 15, 16]"
    by (simp add: overlaps_def hour_slot_def busy_interval_def combine_hour_def us_hour_def)
  finally show ?thesis using s by simp
qed

text \<open>
  C9. When the scan returns, its result is the first ten of the candidate slots that
  overlap no busy event, where a slot overlaps an event when it starts before the event
  ends and ends after the event starts; so at most ten slots are returned. The scan
  returns for every time, non-negative duration and window inside the range of
  \<open>datetime\<close>. The candidate slots are the slots on the weekdays of the window that start
  at 9 o'clock or a whole number of hours later, last the wanted duration and end by 17
  o'clock, and every such slot is a candidate. On a weekday, for a window of one day, a
  duration of 60 minutes and one busy event from 10 to 11 o'clock, the result is the
  slots that start at 9, 11, 12, 13, 14, 15 and 16 o'clock: the slots at 10:00 and at
  10:30 are not among them.
\<close>

theorem free_time_scan_slots:
  "(free_time_scan now dur days_ahead busy = Inr slots \<longrightarrow>
      slots = take 10 (filter (\<lambda>s. \<not> list_ex (overlaps s) busy)
                         (candidates (date_of now) (nat days_ahead) dur))
      \<and> length slots \<le> 10)
   \<and> (0 \<le> now \<and> 0 \<le> dur
       \<and> (date_of now + days_ahead + 1) * us_day + dur * us_minute \<le> dt_max \<longrightarrow>
      (\<exists>found. free_time_scan now dur days_ahead busy = Inr found))
   \<and> (\<forall>s\<in>set (candidates d0 n dur).
        \<exists>i<n. \<exists>k. weekday (d0 + int i) < 5
          \<and> sl_start s = combine_hour (d0 + int i) 9 + int k * us_hour
          \<and> sl_end s = sl_start s + dur * us_minute
          \<and> sl_end s \<le> combine_hour (d0 + int i) 17)
   \<and> (i < n \<and> weekday (d0 + int i) < 5
       \<and> combine_hour (d0 + int i) 9 + int k * us_hour + dur * us_minute
           \<le> combine_hour (d0 + int i) 17 \<longrightarrow>
      \<lparr>sl_start = combine_hour (d0 + int i) 9 + int k * us_hour,
       sl_end = combine_hour (d0 + int i) 9 + int k * us_hour + dur * us_minute\<rparr>
        \<in> set (candidates d0 n dur))
   \<and> (0 \<le> now \<and> (date_of now + 2) * us_day + 60 * us_minute \<le> dt_max
       \<and> weekday (date_of now) < 5 \<longrightarrow>
      free_time_scan now 60 1
          [busy_interval (combine_hour (date_of now) 10) (combine_hour (date_of now) 11)]
        = Inr (map (hour_slot (date_of now)) [9, 11, 12, 13, 14, 15, 16]))"
proof -
  have a: "free_time_scan now dur days_ahead busy = Inr slots \<longrightarrow>
      slots = take 10 (filter (\<lambda>s. \<not> list_ex (overlaps s) busy)
                         (candidates (date_of now) (nat days_ahead) dur))
      \<and> length slots \<le> 10"
    using free_time_scan_Inr [of now dur days_ahead busy slots] by auto
  have b: "0 \<le> now \<and> 0 \<le> dur
       \<and> (date_of now + days_ahead + 1) * us_day + dur * us_minute \<le> dt_max \<longrightarrow>
      (\<exists>found. free_time_scan now dur days_ahead busy = Inr found)"
    using free_time_scan_total [of now dur days_ahead busy] by blast
  have c: "\<forall>s\<in>set (candidates d0 n dur).
        \<exists>i<n. \<exists>k. weekday (d0 + int i) < 5
          \<and> sl_start s = combine_hour (d0 + int i) 9 + int k * us_hour
          \<and> sl_end s = sl_start s + dur * us_minute
          \<and> sl_end s \<le> combine_hour (d0 + int i) 17"
    using candidates_shape [of _ d0 n dur] by blast
  have d: "i < n \<and> weekday (d0 + int i) < 5
       \<and> combine_hour (d0 + int i) 9 + int k * us_hour + dur * us_minute
           \<le> combine_hour (d0 + int i) 17 \<longrightarrow>
      \<lparr>sl_start = combine_hour (d0 + int i) 9 + int k * us_hour,
       sl_end = combine_hour (d0 + int i) 9 + int k * us_hour + dur * us_minute\<rparr>
        \<in> set (candidates d0 n dur)"
    using candidates_complete [of i n d0 k dur] by blast
  have e: "0 \<le> now \<and> (date_of now + 2) * us_day + 60 * us_minute \<le> dt_max
       \<and> weekday (date_of now) < 5 \<longrightarrow>
      free_time_scan now 60 1
          [busy_interval (combine_hour (date_of now) 10) (combine_hour (date_of now) 11)]
        = Inr (map (hour_slot (date_of now)) [9, 11, 12, 13, 14, 15, 16])"
    using free_time_scan_example [of now] by blast
  from a b c d e show ?thesis by blast
qed

theorem free_time_scan_slots_witness:
  "weekday (date_of 63840902400000000) = 0
   \<and> free_time_scan 63840902400000000 60 1
       [busy_interval (combine_hour 738899 10) (combine_hour 738899 11)]
     = Inr (map (hour_slot 738899) [9, 11, 12, 13, 14, 15, 16])
   \<and> hour_slot 738899 9 \<in> set (map (hour_slot 738899) [9, 11, 12, 13, 14, 15, 16])
   \<and> hour_slot 738899 11 \<in> set (map (hour_slot 738899) [9, 11, 12, 13, 14, 15, 16])
   \<and> \<not> list_ex (\<lambda>s. sl_start s = combine_hour 738899 10
                     \<or> sl_start s = combine_hour 738899 10 + 30 * us_minute)
          (map (hour_slot 738899) [9, 11, 12, 13, 14, 15, 16])
   \<and> free_time_scan 63840902400000000 60 7 []
     = Inr (map (hour_slot 738899) [9, 10, 11, 12, 13, 14, 15, 16]
            @ map (hour_slot 738900) [9, 10])"
proof -
  have d: "date_of 63840902400000000 = 738899"
    by (simp add: date_of_def us_day_def)
  have w: "weekday (date_of 63840902400000000) = 0"
    by (simp add: d weekday_def)
  have r: "(date_of 63840902400000000 + 2) * us_day + 60 * us_minute \<le> dt_max"
    by (simp add: d us_day_def us_minute_def dt_max_def)
  have x: "free_time_scan 63840902400000000 60 1
       [busy_interval (combine_hour 738899 10) (combine_hour 738899 11)]
     = Inr (map (hour_slot 738899) [9, 11, 12, 13, 14, 15, 16])"
    using free_time_scan_slots [of 63840902400000000] w r by (simp add: d)
  have n: "\<not> list_ex (\<lambda>s. sl_start s = combine_hour 738899 10
                     \<or> sl_start s = combine_hour 738899 10 + 30 * us_minute)
          (map (hour_slot 738899) [9, 11, 12, 13, 14, 15, 16])"
    by (simp add: hour_slot_def combine_hour_def us_hour_def us_day_def us_minute_def)
  have t: "free_time_scan 63840902400000000 60 7 []
     = Inr (map (hour_slot 738899) [9, 10, 11, 12, 13, 14, 15, 16]
            @ map (hour_slot 738900) [9, 10])"
    by code_simp
  from w x n t show ?thesis by simp
qed

text \<open>
  Without an OpenAI key the extraction of reminders from an email leaves the store as it
  was: the result \<open>None\<close> of the extractor has no \<open>get\<close>, and the exception ends in the
  rollback.
\<close>

lemma process_email_for_reminders_no_key:
  "OPENAI_API_KEY cfg = [] \<Longrightarrow>
     process_email_for_reminders driver parse now cfg openai_call email_id db = db"
  by (simp add: process_email_for_reminders_def extract_tasks_and_events_def
      persist_extraction_def sum_bind_def Let_def split: option.splits)

lemma persist_empty_extraction:
  "persist_extraction driver parse now email email_id empty_extraction db = db"
  by (simp add: persist_extraction_def empty_extraction_def sum_bind_def task_rows_def)

end
